theory Spec2Isabelle
  imports Complex_Main
begin

section \<open>Numbers, errors and arrays\<close>

text \<open>
  JavaScript numbers are modelled as real numbers, so a value is always finite: \<^verbatim>\<open>NaN\<close>
  and the infinities are not values of the model. The arithmetic of the linear algebra is
  exact. Where a property depends on how a sum, a difference, a quotient or an exponential
  rounds (the softmax of the application, its selection loop, the sampling filter), the
  definition takes the arithmetic as a parameter, and the theorems hold for every
  arithmetic, or for every arithmetic with the error bounds of IEEE 754 doubles. The
  roundings that the source performs itself (\<open>toFixed\<close>) are written out.

  An exception of the source is a value \<open>Inl e\<close>:
  \<^item> \<open>DimensionMismatch\<close> is \<^verbatim>\<open>throw new Error("Matrix dimension mismatch")\<close>;
  \<^item> \<open>TypeError\<close> is the engine's exception for a property read on \<^verbatim>\<open>undefined\<close>
    (a missing row, a missing vector);
  \<^item> \<open>NotANumber\<close> is not an exception. An element read past the end of a row gives
    \<^verbatim>\<open>undefined\<close>, the arithmetic on it gives \<^verbatim>\<open>NaN\<close>, and so do \<open>0 / 0\<close> and the
    sine of an infinity; the source carries on with that value. The reals have no such
    value, so the model stops there and says so. What the source does after that point is
    not followed.
\<close>

datatype error = DimensionMismatch | TypeError | NotANumber

type_synonym vector = "real list"
type_synonym matrix = "real list list"

text \<open>\<open>bindE\<close> sequences two computations: the first exception wins.\<close>

definition bindE :: "error + 'a \<Rightarrow> ('a \<Rightarrow> error + 'b) \<Rightarrow> error + 'b" where
  "bindE m f = (case m of Inl e \<Rightarrow> Inl e | Inr x \<Rightarrow> f x)"

text \<open>\<open>Array.prototype.map\<close> with a callback that may throw: elements in order.\<close>

fun mapE :: "('a \<Rightarrow> error + 'b) \<Rightarrow> 'a list \<Rightarrow> error + 'b list" where
  "mapE f [] = Inr []"
| "mapE f (x # xs) =
     (case f x of Inl e \<Rightarrow> Inl e
      | Inr y \<Rightarrow> (case mapE f xs of Inl e \<Rightarrow> Inl e | Inr ys \<Rightarrow> Inr (y # ys)))"

text \<open>\<open>xs[i]\<close> for a JavaScript index: \<^verbatim>\<open>undefined\<close> (here \<open>None\<close>) outside the array.\<close>

definition js_nth :: "'a list \<Rightarrow> int \<Rightarrow> 'a option" where
  "js_nth xs i = (if 0 \<le> i \<and> i < int (length xs) then Some (xs ! nat i) else None)"

text \<open>
  \<^verbatim>\<open>parseFloat(x.toFixed(n))\<close>: the nearest multiple of \<open>10^-n\<close>, a tie going away from
  zero; from \<open>10^21\<close> on \<open>toFixed\<close> prints the number itself.
\<close>

definition toFixed :: "nat \<Rightarrow> real \<Rightarrow> real" where
  "toFixed n x =
     (if 10 ^ 21 \<le> \<bar>x\<bar> then x
      else sgn x * of_int \<lfloor>\<bar>x\<bar> * 10 ^ n + 1 / 2\<rfloor> / 10 ^ n)"

section \<open>Floating-point arithmetic\<close>

text \<open>
  The operations whose rounding matters: \<open>+\<close>, \<open>-\<close>, \<open>/\<close> and \<^verbatim>\<open>Math.exp\<close>.
\<close>

record arith =
  f_add :: "real \<Rightarrow> real \<Rightarrow> real"
  f_sub :: "real \<Rightarrow> real \<Rightarrow> real"
  f_div :: "real \<Rightarrow> real \<Rightarrow> real"
  f_exp :: "real \<Rightarrow> real"

definition exactArithmetic :: arith where
  "exactArithmetic = \<lparr>f_add = (+), f_sub = (-), f_div = (/), f_exp = exp\<rparr>"

text \<open>
  Rounding to the nearest double (IEEE 754 binary64, 53 significant bits, a tie going to
  the even significand), with an unbounded exponent: a result that a double would carry
  to infinity or into the subnormal range is rounded to 53 bits like any other.
  \<open>doubleArithmetic\<close> rounds the exact result of each operation; its exponential is 0
  from \<open>-746\<close> down, where \<open>exp x\<close> is below half the smallest positive double.
\<close>

definition roundHalfEven :: "real \<Rightarrow> int" where
  "roundHalfEven y =
     (let f = \<lfloor>y\<rfloor>; d = y - of_int f
      in if d < 1 / 2 then f else if 1 / 2 < d then f + 1 else if even f then f else f + 1)"

definition roundDouble :: "real \<Rightarrow> real" where
  "roundDouble x =
     (if x = 0 then 0
      else (let e = \<lfloor>log 2 \<bar>x\<bar>\<rfloor>; ulp = 2 powr (of_int e - 52)
            in of_int (roundHalfEven (x / ulp)) * ulp))"

definition doubleArithmetic :: arith where
  "doubleArithmetic =
     \<lparr>f_add = (\<lambda>a b. roundDouble (a + b)),
      f_sub = (\<lambda>a b. roundDouble (a - b)),
      f_div = (\<lambda>a b. roundDouble (a / b)),
      f_exp = (\<lambda>x. if x \<le> - 746 then 0 else roundDouble (exp x))\<rparr>"


section \<open>Weight generators\<close>

text \<open>
  \<^verbatim>\<open>generateMatrix\<close> (math utilities) and \<^verbatim>\<open>generateRandomMatrix\<close> (transformer
  utilities). The loops over \<open>i < rows\<close> and \<open>j < cols\<close> push one entry each.
\<close>

definition generateMatrix :: "nat \<Rightarrow> nat \<Rightarrow> real \<Rightarrow> matrix" where
  "generateMatrix rows cols seed =
     map (\<lambda>i. map (\<lambda>j. sin (real i * 10 + real j * 20 + seed) * (1 / 2)) [0..<cols])
       [0..<rows]"

text \<open>
  In \<^verbatim>\<open>generateRandomMatrix\<close> the seed is multiplied by 1000 first. A product, or a sum,
  whose magnitude is at least \<open>2^1024 - 2^970\<close> rounds to an infinity, the sine of an
  infinity is \<^verbatim>\<open>NaN\<close>, and so is the entry.
\<close>

definition overflows :: "real \<Rightarrow> bool" where
  "overflows y \<longleftrightarrow> 2 ^ 1024 - 2 ^ 970 \<le> \<bar>y\<bar>"

definition randomEntry :: "real \<Rightarrow> nat \<Rightarrow> nat \<Rightarrow> error + real" where
  "randomEntry seed i j =
     (if overflows (seed * 1000) \<or> overflows (seed * 1000 + real i * 100)
         \<or> overflows (seed * 1000 + real i * 100 + real j)
      then Inl NotANumber
      else (let x = sin (seed * 1000 + real i * 100 + real j) * 10000;
                val = toFixed 2 (x - of_int \<lfloor>x\<rfloor>)
            in Inr (val * 2 - 1)))"

definition generateRandomMatrix :: "nat \<Rightarrow> nat \<Rightarrow> real \<Rightarrow> error + matrix" where
  "generateRandomMatrix rows cols seed =
     mapE (\<lambda>i. mapE (\<lambda>j. randomEntry seed i j) [0..<cols]) [0..<rows]"

section \<open>Vocabulary and tokenizer\<close>

text \<open>
  A JavaScript string is modelled as an Isabelle string, one character for each code unit,
  for code units below 256. \<^verbatim>\<open>undefined\<close> in an array of tokens is \<open>None\<close>.
\<close>

record token =
  token_id :: nat
  token_text :: string
  token_color :: string

definition VOCABULARY :: "string list" where
  "VOCABULARY =
     [''<PAD>'', ''<START>'', ''<END>'', ''<UNK>'',
      ''I'', ''like'', ''cats'', ''dogs'', ''and'', ''you'', ''are'', ''cute'', ''very'',
      ''much'', ''.'', ''!'']"

definition TOKEN_COLORS :: "(string \<times> string) list" where
  "TOKEN_COLORS =
     [(''<PAD>'', ''bg-gray-200 text-gray-500''),
      (''<START>'', ''bg-green-100 text-green-700''),
      (''<END>'', ''bg-red-100 text-red-700''),
      (''<UNK>'', ''bg-yellow-100 text-yellow-700''),
      (''default'', ''bg-blue-50 text-blue-700'')]"

text \<open>\<^verbatim>\<open>TOKEN_COLORS[text] || TOKEN_COLORS["default"]\<close>\<close>

definition color_of :: "string \<Rightarrow> string" where
  "color_of t =
     (case map_of TOKEN_COLORS t of Some c \<Rightarrow> c | None \<Rightarrow> ''bg-blue-50 text-blue-700'')"

definition TOKENS :: "token list" where
  "TOKENS =
     map (\<lambda>(i, t). \<lparr>token_id = i, token_text = t, token_color = color_of t\<rparr>)
       (enumerate 0 VOCABULARY)"

text \<open>\<^verbatim>\<open>TOKENS.find(t => t.text === w)\<close>\<close>

definition find_token :: "string \<Rightarrow> token option" where
  "find_token w = find (\<lambda>t. token_text t = w) TOKENS"

text \<open>The class \<^verbatim>\<open>[.,!]\<close> and the class \<^verbatim>\<open>\s\<close> (also what \<^verbatim>\<open>trim\<close> removes).\<close>

definition is_punct :: "char \<Rightarrow> bool" where
  "is_punct c \<longleftrightarrow> c = CHR ''.'' \<or> c = CHR '','' \<or> c = CHR ''!''"

definition is_space :: "char \<Rightarrow> bool" where
  "is_space c \<longleftrightarrow>
     c = CHR 0x09 \<or> c = CHR 0x0A \<or> c = CHR 0x0B \<or> c = CHR 0x0C \<or> c = CHR 0x0D
     \<or> c = CHR 0x20 \<or> c = CHR 0xA0"

text \<open>\<^verbatim>\<open>.replace(/([.,!])/g, " $1 ")\<close>\<close>

definition separatePunct :: "string \<Rightarrow> string" where
  "separatePunct s =
     concat (map (\<lambda>c. if is_punct c then [CHR 0x20, c, CHR 0x20] else [c]) s)"

definition trim :: "string \<Rightarrow> string" where
  "trim s = rev (dropWhile is_space (rev (dropWhile is_space s)))"

text \<open>
  \<^verbatim>\<open>.split(/\s+/)\<close>: the pieces between the maximal runs of whitespace. A run at the
  start or at the end leaves an empty piece there, and the empty string splits into one
  empty piece.
\<close>

fun splitWs :: "string \<Rightarrow> string list" where
  "splitWs [] = [[]]"
| "splitWs (c # cs) =
     (if is_space c then
        (if cs \<noteq> [] \<and> is_space (hd cs) then splitWs cs else [] # splitWs cs)
      else (case splitWs cs of [] \<Rightarrow> [[c]] | w # ws \<Rightarrow> (c # w) # ws))"

definition rawWords :: "string \<Rightarrow> string list" where
  "rawWords s = splitWs (trim (separatePunct s))"

text \<open>
  \<^verbatim>\<open>tokenize\<close> of the tokenizer module. The loop skips an empty word, pushes the token
  found for a word, and the token found for \<^verbatim>\<open><UNK>\<close> otherwise. The non-null
  assertions of the source check nothing, so what \<^verbatim>\<open>find\<close> returns is pushed as it is.
\<close>

definition tokenize :: "string \<Rightarrow> token option list" where
  "tokenize s =
     find_token ''<START>''
     # map (\<lambda>word. case find_token word of Some found \<Rightarrow> Some found
                     | None \<Rightarrow> find_token ''<UNK>'')
         (filter (\<lambda>word. word \<noteq> []) (rawWords s))"

text \<open>\<^verbatim>\<open>.join(" ")\<close>\<close>

fun join :: "string \<Rightarrow> string list \<Rightarrow> string" where
  "join sep [] = []"
| "join sep [w] = w"
| "join sep (w # ws) = w @ sep @ join sep ws"

text \<open>
  \<^verbatim>\<open>.replace(/\s+([.,!])/g, "$1")\<close>: a whitespace character goes when the run of
  whitespace it stands in is followed at once by a punctuation character.
\<close>

definition beforePunct :: "string \<Rightarrow> bool" where
  "beforePunct cs = (case dropWhile is_space cs of [] \<Rightarrow> False | p # _ \<Rightarrow> is_punct p)"

fun dropSpaceBeforePunct :: "string \<Rightarrow> string" where
  "dropSpaceBeforePunct [] = []"
| "dropSpaceBeforePunct (c # cs) =
     (if is_space c \<and> beforePunct cs then dropSpaceBeforePunct cs
      else c # dropSpaceBeforePunct cs)"

text \<open>
  \<^verbatim>\<open>detokenize\<close>. Reading \<^verbatim>\<open>t.text\<close> of an \<^verbatim>\<open>undefined\<close> element throws.
\<close>

definition detokenize :: "token option list \<Rightarrow> error + string" where
  "detokenize tokens =
     (case those tokens of
        None \<Rightarrow> Inl TypeError
      | Some ts \<Rightarrow>
          Inr (dropSpaceBeforePunct
                 (join [CHR 0x20]
                    (map token_text
                       (filter (\<lambda>t. token_text t \<noteq> ''<START>'' \<and> token_text t \<noteq> ''<PAD>'')
                          ts)))))"

text \<open>Whitespace normalisation, as far as the round trip is concerned: all of it removed.\<close>

definition strip_ws :: "string \<Rightarrow> string" where
  "strip_ws s = filter (\<lambda>c. \<not> is_space c) s"

section \<open>Embedding lookup\<close>

text \<open>
  \<^verbatim>\<open>getEmbeddings\<close>: \<^verbatim>\<open>embeddingMatrix[id] || new Array(embeddingMatrix[0].length).fill(0)\<close>.
  A row is an array and so never falsy; the right-hand side is evaluated when the row is
  missing, and reading \<^verbatim>\<open>embeddingMatrix[0].length\<close> throws when the table is empty.
\<close>

definition getEmbeddings :: "int list \<Rightarrow> matrix \<Rightarrow> error + matrix" where
  "getEmbeddings tokenIds embeddingMatrix =
     mapE (\<lambda>id. case js_nth embeddingMatrix id of
                   Some row \<Rightarrow> Inr row
                 | None \<Rightarrow> (case js_nth embeddingMatrix 0 of
                              None \<Rightarrow> Inl TypeError
                            | Some row0 \<Rightarrow> Inr (replicate (length row0) 0)))
       tokenIds"

section \<open>Attention stage\<close>

text \<open>
  The transformer utilities. \<^verbatim>\<open>dotProduct\<close> (the same function in both utility modules)
  reads \<open>b[i]\<close> for every index of \<open>a\<close>.
\<close>

definition dotProduct :: "vector \<Rightarrow> vector \<Rightarrow> error + real" where
  "dotProduct a b =
     (if length b < length a then Inl NotANumber
      else Inr (sum_list (map2 (\<lambda>x y. x * y) a b)))"

text \<open>
  \<^verbatim>\<open>matMul\<close>: \<open>a[0].length\<close> and \<open>b[0].length\<close> are read first, then the dimensions
  are compared, then entry \<open>(i, j)\<close> sums \<open>a[i][k] * b[k][j]\<close> over \<open>k < colsA\<close> and is
  rounded to two decimals. The sum is exact here; a sum of doubles that lies within a
  rounding error of a tie can be rounded to the other neighbour.
\<close>

definition matMul :: "matrix \<Rightarrow> matrix \<Rightarrow> error + matrix" where
  "matMul a b =
     (case a of [] \<Rightarrow> Inl TypeError
      | a0 # _ \<Rightarrow>
     (case b of [] \<Rightarrow> Inl TypeError
      | b0 # _ \<Rightarrow>
        (let colsA = length a0; rowsB = length b; colsB = length b0 in
         if colsA \<noteq> rowsB then Inl DimensionMismatch
         else if 0 < colsA \<and> 0 < colsB
                 \<and> (list_ex (\<lambda>row. length row < colsA) a
                     \<or> list_ex (\<lambda>row. length row < colsB) b)
           then Inl NotANumber
         else Inr (map (\<lambda>row.
                     map (\<lambda>j. toFixed 2 (sum_list (map (\<lambda>k. row ! k * b ! k ! j) [0..<colsA])))
                       [0..<colsB]) a))))"

text \<open>
  \<^verbatim>\<open>Math.max(...logits)\<close> of a non-empty array, and \<^verbatim>\<open>softmax\<close> of the transformer
  utilities, which rounds each weight to four decimals.
\<close>

definition list_max :: "real list \<Rightarrow> real" where
  "list_max xs = fold max (tl xs) (hd xs)"

definition softmax4 :: "vector \<Rightarrow> vector" where
  "softmax4 logits =
     (if logits = [] then []
      else (let mx = list_max logits;
                exps = map (\<lambda>v. exp (v - mx)) logits;
                sum = sum_list exps
            in map (\<lambda>v. toFixed 4 (v / sum)) exps))"

record AttentionHead =
  attn_Q :: matrix
  attn_K :: matrix
  attn_V :: matrix
  scores :: matrix
  weights :: matrix
  weightedSum :: matrix

text \<open>
  Row \<open>i\<close> of the scores: for \<open>j \<le> i\<close> the scaled dot product of \<open>Q[i]\<close> and \<open>K[j]\<close>,
  rounded to two decimals, and the mask \<open>-1e9\<close> for \<open>j > i\<close>. With \<open>d_k = 0\<close> the
  quotient is \<open>0 / 0\<close>.
\<close>

definition scoreRow :: "matrix \<Rightarrow> nat \<Rightarrow> nat \<Rightarrow> vector \<Rightarrow> error + vector" where
  "scoreRow K d_k i q =
     mapE (\<lambda>(j, k).
            if j \<le> i then
              (case dotProduct q k of
                 Inl e \<Rightarrow> Inl e
               | Inr rawScore \<Rightarrow>
                   if d_k = 0 then Inl NotANumber
                   else Inr (toFixed 2 (rawScore / sqrt (real d_k))))
            else Inr (- 1000000000))
       (enumerate 0 K)"

text \<open>
  One row of the weighted sum, \<open>width\<close> being \<open>V[0].length\<close>: entry \<open>k\<close> adds
  \<open>weight * V[j][k]\<close> over the rows \<open>j\<close> that have an entry \<open>k\<close>, and is rounded to
  two decimals. A weight without a row of \<open>V\<close> reads \<open>V[j].length\<close> of a missing row; a
  row of \<open>V\<close> longer than row 0 adds to an entry that does not exist.
\<close>

definition weightedRow :: "matrix \<Rightarrow> nat \<Rightarrow> vector \<Rightarrow> error + vector" where
  "weightedRow V width wrow =
     (if length V < length wrow then Inl TypeError
      else if list_ex (\<lambda>vrow. width < length vrow) (take (length wrow) V) then Inl NotANumber
      else Inr (map (\<lambda>k. toFixed 2
                  (sum_list (map2 (\<lambda>weight vrow. if k < length vrow then weight * vrow ! k else 0)
                     wrow V)))
                [0..<width]))"

definition computeAttention :: "matrix \<Rightarrow> matrix \<Rightarrow> matrix \<Rightarrow> matrix \<Rightarrow> error + AttentionHead" where
  "computeAttention input W_Q W_K W_V =
     bindE (matMul input W_Q) (\<lambda>Q.
     bindE (matMul input W_K) (\<lambda>K.
     bindE (matMul input W_V) (\<lambda>V.
       (case Q of [] \<Rightarrow> Inl TypeError
        | q0 # _ \<Rightarrow>
          bindE (mapE (\<lambda>(i, q). scoreRow K (length q0) i q) (enumerate 0 Q)) (\<lambda>scoreRows.
            (case V of [] \<Rightarrow> Inl TypeError
             | v0 # _ \<Rightarrow>
               bindE (mapE (weightedRow V (length v0)) (map softmax4 scoreRows)) (\<lambda>ws.
                 Inr \<lparr>attn_Q = Q, attn_K = K, attn_V = V, scores = scoreRows,
                      weights = map softmax4 scoreRows, weightedSum = ws\<rparr>)))))))"

section \<open>Sampling filter\<close>




text \<open>The value of a running sum that starts at 0, after the entry at index \<open>k\<close> was added.\<close>

definition accumulatedAt :: "arith \<Rightarrow> real list \<Rightarrow> nat \<Rightarrow> real" where
  "accumulatedAt A xs k = foldl (f_add A) 0 (take (Suc k) xs)"



section \<open>The single-page application\<close>

text \<open>The vocabulary of the application component, \<^verbatim>\<open>VOCAB\<close> (21 entries).\<close>

definition VOCAB :: "string list" where
  "VOCAB =
     [''<START>'', ''I'', ''like'', ''love'', ''hate'', ''cats'', ''dogs'', ''code'', ''math'',
      ''pizza'', ''is'', ''are'', ''fun'', ''hard'', ''tasty'', ''very'', ''and'', ''.'', ''!'',
      ''<END>'', ''<UNK>'']"

subsection \<open>Weighted random selection\<close>

text \<open>
  The selection loop of \<^verbatim>\<open>handleGenerateStep\<close>: \<^verbatim>\<open>nextTokenIndex\<close> starts at 0 and
  is set to the first index whose running sum reaches the drawn value \<open>r\<close>. The sum
  \<^verbatim>\<open>accumulated += results.probs[i]\<close> is that of the arithmetic \<open>A\<close>.
\<close>

fun sampleFrom :: "arith \<Rightarrow> real \<Rightarrow> real \<Rightarrow> nat \<Rightarrow> real list \<Rightarrow> nat" where
  "sampleFrom A r accumulated i [] = 0"
| "sampleFrom A r accumulated i (p # ps) =
     (if r \<le> f_add A accumulated p then i
      else sampleFrom A r (f_add A accumulated p) (Suc i) ps)"

definition sampleIndex :: "arith \<Rightarrow> real \<Rightarrow> real list \<Rightarrow> nat" where
  "sampleIndex A r probs = sampleFrom A r 0 0 probs"

subsection \<open>Math utilities\<close>

text \<open>\<^verbatim>\<open>addVectors\<close>: \<^verbatim>\<open>val + (v2[i] || 0)\<close>, a missing entry of \<open>v2\<close> counting as 0.\<close>

definition addVectors :: "vector \<Rightarrow> vector \<Rightarrow> vector" where
  "addVectors v1 v2 =
     map (\<lambda>(i, val). val + (case js_nth v2 (int i) of Some y \<Rightarrow> y | None \<Rightarrow> 0))
       (enumerate 0 v1)"

text \<open>
  \<^verbatim>\<open>addVectors\<close> on rows that may be \<^verbatim>\<open>undefined\<close>: \<open>v1.map\<close> throws on a missing
  \<open>v1\<close>, and \<open>v2[i]\<close> throws on a missing \<open>v2\<close> as soon as \<open>v1\<close> has an entry.
\<close>

definition addVectorsU :: "vector option \<Rightarrow> vector option \<Rightarrow> error + vector" where
  "addVectorsU v1 v2 =
     (case v1 of None \<Rightarrow> Inl TypeError
      | Some a \<Rightarrow>
          (case v2 of None \<Rightarrow> (if a = [] then Inr [] else Inl TypeError)
           | Some b \<Rightarrow> Inr (addVectors a b)))"

text \<open>
  \<^verbatim>\<open>matMulVector\<close>: \<open>matrix[0].length\<close> columns; column \<open>j\<close> sums
  \<open>vec[i] * matrix[i][j]\<close> over the indices of \<open>vec\<close>. There is no comparison of
  dimensions: a vector longer than the matrix has rows reads a missing row and throws, a
  shorter one is multiplied with the first rows.
\<close>

definition matMulVector :: "vector \<Rightarrow> matrix \<Rightarrow> error + vector" where
  "matMulVector vec matrix =
     (case matrix of [] \<Rightarrow> Inl TypeError
      | m0 # _ \<Rightarrow>
        (let cols = length m0 in
         if cols = 0 then Inr []
         else if length matrix < length vec then Inl TypeError
         else if list_ex (\<lambda>row. length row < cols) (take (length vec) matrix)
           then Inl NotANumber
         else Inr (map (\<lambda>j. sum_list (map2 (\<lambda>v row. v * row ! j) vec matrix)) [0..<cols])))"

text \<open>
  \<^verbatim>\<open>softmax\<close> with a temperature, over the arithmetic \<open>A\<close>: the difference from
  the largest logit, the quotient by the temperature, \<^verbatim>\<open>Math.exp\<close>, the sum of
  \<^verbatim>\<open>reduce\<close> from 0 and the final quotients. \<^verbatim>\<open>Math.max\<close> is exact. With
  temperature 0 the largest logit gives \<open>0 / 0\<close>.
\<close>

definition softmax :: "arith \<Rightarrow> vector \<Rightarrow> real \<Rightarrow> error + vector" where
  "softmax A logits temperature =
     (if logits = [] then Inr []
      else if temperature = 0 then Inl NotANumber
      else (let maxLogit = list_max logits;
                exps = map (\<lambda>l. f_exp A (f_div A (f_sub A l maxLogit) temperature)) logits;
                sumExps = foldl (f_add A) 0 exps
            in Inr (map (\<lambda>e. f_div A e sumExps) exps)))"

definition relu :: "vector \<Rightarrow> vector" where
  "relu vec = map (\<lambda>x. max 0 x) vec"

subsection \<open>Weights, tokenizer and forward pass\<close>

record weight_set =
  wQ :: matrix
  wK :: matrix
  wV :: matrix
  wO :: matrix
  wFF1 :: matrix
  wFF2 :: matrix
  wVocab :: matrix
  w_embeddings :: matrix
  posEncodings :: matrix

text \<open>The memoised \<^verbatim>\<open>weights\<close>, a function of \<open>embedDim\<close>.\<close>

definition app_weights :: "nat \<Rightarrow> weight_set" where
  "app_weights embedDim =
     \<lparr>wQ = generateMatrix embedDim embedDim 1,
      wK = generateMatrix embedDim embedDim 2,
      wV = generateMatrix embedDim embedDim 3,
      wO = generateMatrix embedDim embedDim 4,
      wFF1 = generateMatrix embedDim (embedDim * 2) 5,
      wFF2 = generateMatrix (embedDim * 2) embedDim 6,
      wVocab = generateMatrix embedDim (length VOCAB) 7,
      w_embeddings = generateMatrix (length VOCAB) embedDim 8,
      posEncodings = generateMatrix 20 embedDim 9\<rparr>"


text \<open>\<^verbatim>\<open>VOCAB.indexOf(t)\<close>: the first position of \<open>t\<close>, or \<open>-1\<close>.\<close>

fun indexFrom :: "nat \<Rightarrow> string \<Rightarrow> string list \<Rightarrow> int" where
  "indexFrom i w [] = - 1"
| "indexFrom i w (x # xs) = (if x = w then int i else indexFrom (Suc i) w xs)"

definition indexOf :: "string list \<Rightarrow> string option \<Rightarrow> int" where
  "indexOf vocab t = (case t of None \<Rightarrow> - 1 | Some w \<Rightarrow> indexFrom 0 w vocab)"

record embedding_entry =
  emb_token :: "string option"
  emb_base :: "vector option"
  emb_pos :: "vector option"
  emb_final :: vector

record pipeline =
  p_tokens :: "string option list"
  p_embeddings :: "embedding_entry list"
  p_Q :: matrix
  p_K :: matrix
  p_V :: matrix
  attentionScores :: matrix
  attentionWeights :: matrix
  ffnHidden :: matrix
  finalBlockOutput :: matrix
  logits :: vector
  probs :: vector

text \<open>
  Step 2 of \<^verbatim>\<open>runPipeline\<close>, for the token at position \<open>pos\<close>: its embedding row plus
  the positional row. A row that is missing is \<^verbatim>\<open>undefined\<close>, here \<open>None\<close>.
\<close>

definition embedToken :: "weight_set \<Rightarrow> nat \<times> string option \<Rightarrow> error + embedding_entry" where
  "embedToken W = (\<lambda>(pos, t).
     (let emb = js_nth (w_embeddings W) (indexOf VOCAB t);
          posEnc = js_nth (posEncodings W) (int pos)
      in bindE (addVectorsU emb posEnc) (\<lambda>final.
           Inr \<lparr>emb_token = t, emb_base = emb, emb_pos = posEnc, emb_final = final\<rparr>)))"

text \<open>
  Step 3, row \<open>i\<close> of the scores and of the weights: the mask \<open>-1e9\<close> for \<open>j > i\<close>, the
  scaled dot product otherwise (not rounded), then \<^verbatim>\<open>softmax\<close> with its default
  temperature 1. The dot products are exact; the softmax is that of the arithmetic \<open>A\<close>.
\<close>

definition app_scoreRow :: "nat \<Rightarrow> matrix \<Rightarrow> nat \<Rightarrow> vector \<Rightarrow> error + vector" where
  "app_scoreRow embedDim K i q =
     mapE (\<lambda>(j, k).
            if i < j then Inr (- 1000000000)
            else bindE (dotProduct q k) (\<lambda>d.
                   if embedDim = 0 then Inl NotANumber else Inr (d / sqrt (real embedDim))))
       (enumerate 0 K)"

definition attentionRows ::
  "arith \<Rightarrow> nat \<Rightarrow> matrix \<Rightarrow> matrix \<Rightarrow> error + (vector \<times> vector) list" where
  "attentionRows A embedDim Q K =
     mapE (\<lambda>(i, q). bindE (app_scoreRow embedDim K i q) (\<lambda>rowScores.
                      bindE (softmax A rowScores 1) (\<lambda>w. Inr (rowScores, w))))
       (enumerate 0 Q)"

text \<open>
  One row of \<^verbatim>\<open>attentionOutput\<close>: entry \<open>d\<close> adds \<open>w * V[j][d]\<close> over \<open>j < contextSize\<close>.
\<close>

definition attentionOut :: "nat \<Rightarrow> nat \<Rightarrow> matrix \<Rightarrow> vector \<Rightarrow> error + vector" where
  "attentionOut embedDim contextSize V weightsRow =
     (if embedDim = 0 \<or> contextSize = 0 then Inr (replicate embedDim 0)
      else if length V < contextSize then Inl TypeError
      else if length weightsRow < contextSize
              \<or> list_ex (\<lambda>v. length v < embedDim) (take contextSize V)
        then Inl NotANumber
      else Inr (map (\<lambda>d. sum_list (map (\<lambda>j. weightsRow ! j * V ! j ! d) [0..<contextSize]))
                  [0..<embedDim]))"

text \<open>
  Step 5, the output head: the last row of the final block output times the vocabulary
  projection. With no row at all \<open>lastState\<close> is \<^verbatim>\<open>undefined\<close>.
\<close>

definition outputHead :: "matrix \<Rightarrow> matrix \<Rightarrow> error + vector" where
  "outputHead fbo vocabProjection =
     (if fbo = [] then
        (case vocabProjection of [] \<Rightarrow> Inl TypeError
         | m0 # _ \<Rightarrow> if length m0 = 0 then Inr [] else Inl TypeError)
      else matMulVector (last fbo) vocabProjection)"

text \<open>
  \<^verbatim>\<open>runPipeline\<close>. The residual additions pair row \<open>i\<close> of one matrix with row \<open>i\<close> of
  another that has the same number of rows, both being maps of the context.
\<close>

definition runPipeline ::
  "arith \<Rightarrow> nat \<Rightarrow> real \<Rightarrow> string option list \<Rightarrow> error + pipeline" where
  "runPipeline A embedDim temperature currentTokens =
     (let W = app_weights embedDim; contextSize = length currentTokens in
      bindE (mapE (embedToken W) (enumerate 0 currentTokens)) (\<lambda>embeddings.
      let X = map emb_final embeddings in
      bindE (mapE (\<lambda>vec. matMulVector vec (wQ W)) X) (\<lambda>Q.
      bindE (mapE (\<lambda>vec. matMulVector vec (wK W)) X) (\<lambda>K.
      bindE (mapE (\<lambda>vec. matMulVector vec (wV W)) X) (\<lambda>V.
      bindE (attentionRows A embedDim Q K) (\<lambda>rows.
      let attentionScores = map fst rows; attentionWeights = map snd rows in
      bindE (mapE (attentionOut embedDim contextSize V) attentionWeights) (\<lambda>attentionOutput.
      let postAttention = map2 addVectors attentionOutput X in
      bindE (mapE (\<lambda>vec. bindE (matMulVector vec (wFF1 W)) (\<lambda>h. Inr (relu h))) postAttention)
        (\<lambda>ffnHidden.
      bindE (mapE (\<lambda>vec. matMulVector vec (wFF2 W)) ffnHidden) (\<lambda>ffnOutput.
      let finalBlockOutput = map2 addVectors ffnOutput postAttention in
      bindE (outputHead finalBlockOutput (wVocab W)) (\<lambda>logits.
      bindE (softmax A logits temperature) (\<lambda>probs.
        Inr \<lparr>p_tokens = currentTokens, p_embeddings = embeddings,
             p_Q = Q, p_K = K, p_V = V,
             attentionScores = attentionScores, attentionWeights = attentionWeights,
             ffnHidden = ffnHidden, finalBlockOutput = finalBlockOutput,
             logits = logits, probs = probs\<rparr>)))))))))))"

subsection \<open>Generation step\<close>

record app_state =
  inputText :: string
  generatedTokens :: "string option list"
  embedDim :: nat
  temperature :: real
  maxTokens :: nat
  pipelineData :: "pipeline option"
  isAutoRunning :: bool




section \<open>Properties\<close>

subsection \<open>Rounding\<close>

lemma toFixed_frac_range:
  assumes "0 \<le> y" "y < 1"
  shows "0 \<le> toFixed 2 y \<and> toFixed 2 y \<le> 1"
proof -
  have small: "\<not> 10 ^ 21 \<le> \<bar>y\<bar>" using assms by simp
  have lo: "0 \<le> \<lfloor>\<bar>y\<bar> * 10 ^ 2 + 1 / 2\<rfloor>" using assms by simp
  have "\<bar>y\<bar> * 10 ^ 2 + 1 / 2 < 101" using assms by simp
  then have hi: "\<lfloor>\<bar>y\<bar> * 10 ^ 2 + 1 / 2\<rfloor> \<le> 100"
    by (simp add: floor_less_iff flip: zle_add1_eq_le)
  have sg: "sgn y = 0 \<or> sgn y = 1" using assms by (cases "y = 0") simp_all
  have "real_of_int \<lfloor>\<bar>y\<bar> * 10 ^ 2 + 1 / 2\<rfloor> \<le> 100" using hi by linarith
  moreover have "0 \<le> real_of_int \<lfloor>\<bar>y\<bar> * 10 ^ 2 + 1 / 2\<rfloor>" using lo by linarith
  ultimately show ?thesis using sg small
    by (auto simp: toFixed_def)
qed





subsection \<open>Arrays\<close>

lemma mapE_map: "(\<And>x. x \<in> set xs \<Longrightarrow> f x = Inr (g x)) \<Longrightarrow> mapE f xs = Inr (map g xs)"
  by (induction xs) auto

lemma mapE_Inr:
  "mapE f xs = Inr ys \<Longrightarrow> length ys = length xs \<and> (\<forall>i<length xs. f (xs ! i) = Inr (ys ! i))"
proof (induction xs arbitrary: ys)
  case Nil
  then show ?case by simp
next
  case (Cons x xs)
  from Cons.prems obtain y ys' where y: "f x = Inr y" "mapE f xs = Inr ys'" "ys = y # ys'"
    by (auto split: sum.splits)
  from Cons.IH [OF y(2)] y show ?case by (auto simp: nth_Cons split: nat.splits)
qed

subsection \<open>Rounding to a double\<close>

lemma roundDouble_exponent:
  assumes "2 powr of_int e \<le> \<bar>x\<bar>" "\<bar>x\<bar> < 2 powr (of_int e + 1)"
  shows "roundDouble x
           = of_int (roundHalfEven (x / 2 powr (of_int e - 52))) * 2 powr (of_int e - 52)"
proof -
  have "(0::real) < 2 powr of_int e" by simp
  with assms(1) have pos: "0 < \<bar>x\<bar>" by linarith
  then have nz: "x \<noteq> 0" by simp
  have "of_int e \<le> log 2 \<bar>x\<bar>" using assms(1) pos by (simp add: le_log_iff)
  moreover have "log 2 \<bar>x\<bar> < of_int e + 1" using assms(2) pos by (simp add: log_less_iff)
  ultimately have "\<lfloor>log 2 \<bar>x\<bar>\<rfloor> = e" by (intro floor_unique) simp_all
  then show ?thesis using nz by (simp add: roundDouble_def Let_def)
qed

lemma powr_minus_53: "(2::real) powr (of_int (- 1) - 52) = 1 / 2 ^ 53"
proof -
  have "(2::real) powr (of_int (- 1) - 52) = 2 powr (- real 53)" by simp
  also have "\<dots> = 1 / 2 powr real 53" by (simp only: powr_minus_divide)
  also have "\<dots> = 1 / 2 ^ 53" by (simp only: powr_realpow [of 2 53, OF zero_less_numeral])
  finally show ?thesis .
qed

text \<open>Between \<open>1/2\<close> and 1 the doubles are the multiples of \<open>2^-53\<close>.\<close>

lemma roundDouble_half_one:
  assumes "1 / 2 \<le> \<bar>x\<bar>" "\<bar>x\<bar> < 1"
  shows "roundDouble x = of_int (roundHalfEven (x * 2 ^ 53)) / 2 ^ 53"
proof -
  have a: "(2::real) powr of_int (- 1) = 1 / 2" by (simp add: powr_minus_divide)
  have b: "(2::real) powr (of_int (- 1) + 1) = 1" by simp
  from roundDouble_exponent [of "- 1" x] assms a b
  have "roundDouble x
          = of_int (roundHalfEven (x / 2 powr (of_int (- 1) - 52))) * 2 powr (of_int (- 1) - 52)"
    by simp
  then show ?thesis by (simp only: powr_minus_53) simp
qed






lemma double_ops:
  "f_add doubleArithmetic a b = roundDouble (a + b)"
  "f_sub doubleArithmetic a b = roundDouble (a - b)"
  by (simp_all add: doubleArithmetic_def)

lemma running_sum_step:
  "foldl f a (take (Suc (Suc k)) (p # ps)) = foldl f (f a p) (take (Suc k) ps)"
  by simp

subsection \<open>Weight generators\<close>

lemma no_overflow:
  assumes "\<bar>seed\<bar> \<le> 10 ^ 300" "i \<le> 2 ^ 53" "j \<le> 2 ^ 53"
  shows "\<not> overflows (seed * 1000)" "\<not> overflows (seed * 1000 + real i * 100)"
    "\<not> overflows (seed * 1000 + real i * 100 + real j)"
proof -
  have "real i \<le> real (2 ^ 53)" using assms(2) by (rule of_nat_mono)
  then have i: "0 \<le> real i" "real i \<le> 2 ^ 53" by simp_all
  have "real j \<le> real (2 ^ 53)" using assms(3) by (rule of_nat_mono)
  then have j: "0 \<le> real j" "real j \<le> 2 ^ 53" by simp_all
  define B :: real where "B = 2 ^ 1024 - 2 ^ 970"
  define S :: real where "S = 10 ^ 303"
  define P :: real where "P = 2 ^ 53"
  have s: "\<bar>seed * 1000\<bar> \<le> S" using assms(1) by (simp add: abs_mult S_def)
  have i': "0 \<le> real i" "real i \<le> P" using i by (simp_all add: P_def)
  have j': "0 \<le> real j" "real j \<le> P" using j by (simp_all add: P_def)
  have big: "S + P * 100 + P < B" by (simp add: S_def P_def B_def)
  have P0: "0 \<le> P" by (simp add: P_def)
  have a: "\<bar>seed * 1000\<bar> < 2 ^ 1024 - 2 ^ 970"
    unfolding B_def [symmetric] using s big P0 by linarith
  have b: "\<bar>seed * 1000 + real i * 100\<bar> < 2 ^ 1024 - 2 ^ 970"
    unfolding B_def [symmetric] using s i' big P0 by linarith
  have c: "\<bar>seed * 1000 + real i * 100 + real j\<bar> < 2 ^ 1024 - 2 ^ 970"
    unfolding B_def [symmetric] using s i' j' big by linarith
  from a show "\<not> overflows (seed * 1000)" by (simp only: overflows_def not_le)
  from b show "\<not> overflows (seed * 1000 + real i * 100)" by (simp only: overflows_def not_le)
  from c show "\<not> overflows (seed * 1000 + real i * 100 + real j)"
    by (simp only: overflows_def not_le)
qed

lemma randomEntry_range:
  assumes "\<bar>seed\<bar> \<le> 10 ^ 300" "i \<le> 2 ^ 53" "j \<le> 2 ^ 53"
  shows "\<exists>v. randomEntry seed i j = Inr v \<and> - 1 \<le> v \<and> v \<le> 1"
proof -
  define x where "x = sin (seed * 1000 + real i * 100 + real j) * 10000"
  have "0 \<le> x - of_int \<lfloor>x\<rfloor>" "x - of_int \<lfloor>x\<rfloor> < 1" by linarith+
  from toFixed_frac_range [OF this]
  have "- 1 \<le> toFixed 2 (x - of_int \<lfloor>x\<rfloor>) * 2 - 1 \<and> toFixed 2 (x - of_int \<lfloor>x\<rfloor>) * 2 - 1 \<le> 1"
    by simp
  moreover have "randomEntry seed i j = Inr (toFixed 2 (x - of_int \<lfloor>x\<rfloor>) * 2 - 1)"
    using no_overflow [OF assms] by (simp add: randomEntry_def Let_def x_def)
  ultimately show ?thesis by simp
qed

text \<open>
  Claim C2, as amended. For a seed of magnitude at most \<open>10^300\<close> and at most \<open>2^53\<close>
  rows and columns (the range in which the loop counters are exact), both generators
  return a matrix of \<open>rows\<close> rows of \<open>cols\<close> entries; entry \<open>(i, j)\<close> is a fixed
  expression in \<open>seed\<close>, \<open>i\<close> and \<open>j\<close> (so two calls with the same arguments give the
  same matrix entry by entry), and every entry lies in \<open>[-1, 1]\<close>.
\<close>

theorem generate_deterministic_in_range:
  assumes "\<bar>seed\<bar> \<le> 10 ^ 300" "rows \<le> 2 ^ 53" "cols \<le> 2 ^ 53"
  shows "length (generateMatrix rows cols seed) = rows
   \<and> (\<exists>m. generateRandomMatrix rows cols seed = Inr m \<and> length m = rows
        \<and> (\<forall>i<rows. length (generateMatrix rows cols seed ! i) = cols
             \<and> length (m ! i) = cols
             \<and> (\<forall>j<cols.
                  generateMatrix rows cols seed ! i ! j
                    = sin (real i * 10 + real j * 20 + seed) * (1 / 2)
                \<and> randomEntry seed i j = Inr (m ! i ! j)
                \<and> - 1 \<le> generateMatrix rows cols seed ! i ! j
                \<and> generateMatrix rows cols seed ! i ! j \<le> 1
                \<and> - 1 \<le> m ! i ! j \<and> m ! i ! j \<le> 1)))"
proof -
  define m where
    "m = map (\<lambda>i. map (\<lambda>j. projr (randomEntry seed i j)) [0..<cols]) [0..<rows]"
  have entry: "randomEntry seed i j = Inr (projr (randomEntry seed i j))
               \<and> - 1 \<le> projr (randomEntry seed i j) \<and> projr (randomEntry seed i j) \<le> 1"
    if "i < rows" "j < cols" for i j
  proof -
    from that assms have "i \<le> 2 ^ 53" "j \<le> 2 ^ 53" by simp_all
    from randomEntry_range [OF assms(1) this] show ?thesis by auto
  qed
  have row: "mapE (\<lambda>j. randomEntry seed i j) [0..<cols]
               = Inr (map (\<lambda>j. projr (randomEntry seed i j)) [0..<cols])" if "i < rows" for i
  proof (rule mapE_map)
    fix j assume "j \<in> set [0..<cols]"
    then have "j < cols" by simp
    from entry [OF that this]
    show "randomEntry seed i j = Inr (projr (randomEntry seed i j))" by (rule conjunct1)
  qed
  have gen: "generateRandomMatrix rows cols seed = Inr m"
    unfolding generateRandomMatrix_def m_def
  proof (rule mapE_map)
    fix i assume "i \<in> set [0..<rows]"
    then have "i < rows" by simp
    then show "mapE (\<lambda>j. randomEntry seed i j) [0..<cols]
                 = Inr (map (\<lambda>j. projr (randomEntry seed i j)) [0..<cols])" by (rule row)
  qed
  have sin_half: "- 1 \<le> sin t * (1 / 2) \<and> sin t * (1 / 2) \<le> 1" for t :: real
    using sin_ge_minus_one [of t] sin_le_one [of t] by linarith
  have rows: "length (generateMatrix rows cols seed ! i) = cols \<and> length (m ! i) = cols
             \<and> (\<forall>j<cols.
                  generateMatrix rows cols seed ! i ! j
                    = sin (real i * 10 + real j * 20 + seed) * (1 / 2)
                \<and> randomEntry seed i j = Inr (m ! i ! j)
                \<and> - 1 \<le> generateMatrix rows cols seed ! i ! j
                \<and> generateMatrix rows cols seed ! i ! j \<le> 1
                \<and> - 1 \<le> m ! i ! j \<and> m ! i ! j \<le> 1)" if "i < rows" for i
    using that entry [OF that] sin_half by (simp add: generateMatrix_def m_def)
  have "length m = rows" by (simp add: m_def)
  moreover have "length (generateMatrix rows cols seed) = rows" by (simp add: generateMatrix_def)
  ultimately show ?thesis using gen rows by blast
qed

theorem generate_deterministic_in_range_witness:
  "\<bar>1 :: real\<bar> \<le> 10 ^ 300 \<and> (4::nat) \<le> 2 ^ 53
   \<and> length (generateMatrix 4 4 1) = 4
   \<and> (\<exists>m. generateRandomMatrix 4 4 1 = Inr m \<and> length m = 4
        \<and> length (generateMatrix 4 4 1 ! 0) = 4 \<and> length (m ! 0) = 4
        \<and> generateMatrix 4 4 1 ! 0 ! 0 = sin 1 * (1 / 2)
        \<and> randomEntry 1 0 0 = Inr (m ! 0 ! 0)
        \<and> - 1 \<le> generateMatrix 4 4 1 ! 0 ! 0 \<and> generateMatrix 4 4 1 ! 0 ! 0 \<le> 1
        \<and> - 1 \<le> m ! 0 ! 0 \<and> m ! 0 ! 0 \<le> 1)"
proof -
  have h: "\<bar>1 :: real\<bar> \<le> 10 ^ 300" "(4::nat) \<le> 2 ^ 53" by simp_all
  from generate_deterministic_in_range [OF h(1) h(2) h(2)]
  obtain m where m: "generateRandomMatrix 4 4 1 = Inr m" "length m = 4"
    and all: "\<forall>i<4. length (generateMatrix 4 4 1 ! i) = 4
             \<and> length (m ! i) = 4
             \<and> (\<forall>j<4.
                  generateMatrix 4 4 1 ! i ! j
                    = sin (real i * 10 + real j * 20 + 1) * (1 / 2)
                \<and> randomEntry 1 i j = Inr (m ! i ! j)
                \<and> - 1 \<le> generateMatrix 4 4 1 ! i ! j
                \<and> generateMatrix 4 4 1 ! i ! j \<le> 1
                \<and> - 1 \<le> m ! i ! j \<and> m ! i ! j \<le> 1)"
    by blast
  have z: "(0::nat) < 4" by simp
  from all [rule_format, OF z] have r0: "length (generateMatrix 4 4 1 ! 0) = 4" "length (m ! 0) = 4"
    and e: "\<forall>j<4.
                  generateMatrix 4 4 1 ! 0 ! j
                    = sin (real 0 * 10 + real j * 20 + 1) * (1 / 2)
                \<and> randomEntry 1 0 j = Inr (m ! 0 ! j)
                \<and> - 1 \<le> generateMatrix 4 4 1 ! 0 ! j
                \<and> generateMatrix 4 4 1 ! 0 ! j \<le> 1
                \<and> - 1 \<le> m ! 0 ! j \<and> m ! 0 ! j \<le> 1"
    by blast+
  from e [rule_format, OF z]
  have e0: "generateMatrix 4 4 1 ! 0 ! 0 = sin 1 * (1 / 2)"
    "randomEntry 1 0 0 = Inr (m ! 0 ! 0)"
    "- 1 \<le> generateMatrix 4 4 1 ! 0 ! 0" "generateMatrix 4 4 1 ! 0 ! 0 \<le> 1"
    "- 1 \<le> m ! 0 ! 0" "m ! 0 ! 0 \<le> 1"
    by simp_all
  have l: "length (generateMatrix 4 4 1) = 4"
    using generate_deterministic_in_range [OF h(1) h(2) h(2)] by blast
  have "\<exists>m. generateRandomMatrix 4 4 1 = Inr m \<and> length m = 4
        \<and> length (generateMatrix 4 4 1 ! 0) = 4 \<and> length (m ! 0) = 4
        \<and> generateMatrix 4 4 1 ! 0 ! 0 = sin 1 * (1 / 2)
        \<and> randomEntry 1 0 0 = Inr (m ! 0 ! 0)
        \<and> - 1 \<le> generateMatrix 4 4 1 ! 0 ! 0 \<and> generateMatrix 4 4 1 ! 0 ! 0 \<le> 1
        \<and> - 1 \<le> m ! 0 ! 0 \<and> m ! 0 ! 0 \<le> 1"
    using m r0 e0 by (intro exI [of _ m] conjI)
  with h l show ?thesis by (intro conjI)
qed

text \<open>
  The claim as it stands, for every seed, fails: with the seed \<open>2^1020\<close> (a double,
  about \<open>1.1e307\<close>) the product \<open>seed * 1000\<close> is infinite, its sine is \<^verbatim>\<open>NaN\<close>, and
  the one entry of \<^verbatim>\<open>generateRandomMatrix(1, 1, seed)\<close> is \<^verbatim>\<open>NaN\<close>, which is not in
  \<open>[-1, 1]\<close>.
\<close>

theorem generate_overflow_counterexample:
  "overflows (2 ^ 1020 * 1000)
   \<and> randomEntry (2 ^ 1020) 0 0 = Inl NotANumber
   \<and> generateRandomMatrix 1 1 (2 ^ 1020) = Inl NotANumber"
proof -
  have o: "overflows (2 ^ 1020 * 1000)" by (simp add: overflows_def)
  then have e: "randomEntry (2 ^ 1020) 0 0 = Inl NotANumber" by (simp add: randomEntry_def)
  then have "generateRandomMatrix 1 1 (2 ^ 1020) = Inl NotANumber"
    by (simp add: generateRandomMatrix_def)
  with o e show ?thesis by (intro conjI)
qed

subsection \<open>Tokenizer\<close>

lemma map_text_TOKENS: "map token_text TOKENS = VOCABULARY"
proof -
  have "map token_text TOKENS = map snd (enumerate 0 VOCABULARY)"
    by (simp add: TOKENS_def case_prod_unfold comp_def)
  then show ?thesis by (simp add: map_snd_enumerate)
qed

lemma find_token_Some: "find_token w = Some t \<Longrightarrow> token_text t = w \<and> t \<in> set TOKENS"
  by (auto simp: find_token_def find_Some_iff)

lemma find_token_None: "find_token w = None \<longleftrightarrow> w \<notin> set VOCABULARY"
proof -
  have "set VOCABULARY = token_text ` set TOKENS"
    using map_text_TOKENS by (metis set_map)
  then show ?thesis by (auto simp: find_token_def find_None_iff)
qed

lemma TOKENS_index:
  "t \<in> set TOKENS \<Longrightarrow> token_id t < length VOCABULARY \<and> VOCABULARY ! token_id t = token_text t"
  by (auto simp: TOKENS_def in_set_enumerate_eq)

lemma find_START:
  "find_token ''<START>''
     = Some \<lparr>token_id = 1, token_text = ''<START>'', token_color = ''bg-green-100 text-green-700''\<rparr>"
  by (simp add: find_token_def TOKENS_def VOCABULARY_def color_of_def TOKEN_COLORS_def)

lemma find_UNK:
  "find_token ''<UNK>''
     = Some \<lparr>token_id = 3, token_text = ''<UNK>'', token_color = ''bg-yellow-100 text-yellow-700''\<rparr>"
  by (simp add: find_token_def TOKENS_def VOCABULARY_def color_of_def TOKEN_COLORS_def)

lemma strip_dropSpaceBeforePunct: "strip_ws (dropSpaceBeforePunct t) = strip_ws t"
  by (induction t) (auto simp: strip_ws_def)

lemma strip_join:
  "\<forall>w\<in>set ws. \<forall>c\<in>set w. \<not> is_space c \<Longrightarrow> strip_ws (join [CHR 0x20] ws) = concat ws"
proof (induction "[CHR 0x20]" ws rule: join.induct)
  case 1
  then show ?case by (simp add: strip_ws_def)
next
  case (2 w)
  then show ?case by (simp add: strip_ws_def filter_id_conv)
next
  case (3 w v va)
  have "filter (\<lambda>c. \<not> is_space c) w = w" using 3(2) by (simp add: filter_id_conv)
  moreover have "strip_ws (join [CHR 0x20] (v # va)) = concat (v # va)" using 3 by simp
  ultimately show ?case by (simp add: strip_ws_def is_space_def)
qed

lemma splitWs_nonempty: "splitWs t \<noteq> []"
  by (induction t) (auto split: list.splits)

lemma concat_splitWs: "concat (splitWs t) = strip_ws t"
proof (induction t)
  case Nil
  then show ?case by (simp add: strip_ws_def)
next
  case (Cons c cs)
  then show ?case using splitWs_nonempty [of cs]
    by (auto simp: strip_ws_def split: list.splits)
qed

lemma splitWs_no_space_all: "\<forall>w\<in>set (splitWs t). \<forall>c\<in>set w. \<not> is_space c"
proof (induction t)
  case Nil
  then show ?case by simp
next
  case (Cons a cs)
  show ?case
  proof (cases "is_space a")
    case True
    then show ?thesis using Cons by auto
  next
    case False
    obtain w ws where ws: "splitWs cs = w # ws"
      using splitWs_nonempty [of cs] by (cases "splitWs cs") auto
    then show ?thesis using Cons False by auto
  qed
qed

lemma strip_dropWhile: "strip_ws (dropWhile is_space t) = strip_ws t"
  by (induction t) (auto simp: strip_ws_def)

lemma strip_rev: "strip_ws (rev t) = rev (strip_ws t)"
  by (simp add: strip_ws_def rev_filter)

lemma strip_trim: "strip_ws (trim t) = strip_ws t"
  by (simp add: trim_def strip_rev strip_dropWhile)

lemma strip_separatePunct: "strip_ws (separatePunct t) = strip_ws t"
  by (induction t) (auto simp: strip_ws_def separatePunct_def is_space_def is_punct_def)

lemma concat_filter_nonempty: "concat (filter (\<lambda>w. w \<noteq> []) ws) = concat ws"
  by (induction ws) auto

lemma concat_rawWords: "concat (filter (\<lambda>w. w \<noteq> []) (rawWords s)) = strip_ws s"
  by (simp add: concat_filter_nonempty rawWords_def concat_splitWs strip_trim strip_separatePunct)

lemma those_map_Some: "those (map Some xs) = Some xs"
  by (induction xs) auto


lemma tokenize_word:
  "(case find_token w of Some found \<Rightarrow> Some found | None \<Rightarrow> find_token ''<UNK>'')
     = (if w \<in> set VOCABULARY then find_token w
        else Some \<lparr>token_id = 3, token_text = ''<UNK>'',
                    token_color = ''bg-yellow-100 text-yellow-700''\<rparr>)"
  using find_token_None [of w] by (auto simp: find_UNK split: option.splits)

text \<open>
  Claim C7. \<open>tokenize\<close> has a result for every string: the first token is the start token,
  no element is \<^verbatim>\<open>undefined\<close>, and after it comes one token for each non-empty word of
  the text (punctuation separated, split at whitespace): the vocabulary token whose text
  is the word, compared character by character, and the unknown token for any other word.
\<close>

theorem tokenize_total:
  "hd (tokenize s)
     = Some \<lparr>token_id = 1, token_text = ''<START>'', token_color = ''bg-green-100 text-green-700''\<rparr>
   \<and> length (tokenize s) = Suc (length (filter (\<lambda>w. w \<noteq> []) (rawWords s)))
   \<and> None \<notin> set (tokenize s)
   \<and> (\<forall>i < length (filter (\<lambda>w. w \<noteq> []) (rawWords s)).
         (filter (\<lambda>w. w \<noteq> []) (rawWords s) ! i \<in> set VOCABULARY \<longrightarrow>
            (\<exists>t. tokenize s ! Suc i = Some t
                 \<and> token_text t = filter (\<lambda>w. w \<noteq> []) (rawWords s) ! i
                 \<and> token_id t < length VOCABULARY
                 \<and> VOCABULARY ! token_id t = filter (\<lambda>w. w \<noteq> []) (rawWords s) ! i))
       \<and> (filter (\<lambda>w. w \<noteq> []) (rawWords s) ! i \<notin> set VOCABULARY \<longrightarrow>
            tokenize s ! Suc i
              = Some \<lparr>token_id = 3, token_text = ''<UNK>'',
                       token_color = ''bg-yellow-100 text-yellow-700''\<rparr>))"
proof -
  define ws where "ws = filter (\<lambda>w. w \<noteq> []) (rawWords s)"
  define unk where "unk = \<lparr>token_id = 3, token_text = ''<UNK>'',
                       token_color = ''bg-yellow-100 text-yellow-700''\<rparr>"
  have tok: "tokenize s = find_token ''<START>''
               # map (\<lambda>w. if w \<in> set VOCABULARY then find_token w else Some unk) ws"
    by (simp add: tokenize_def tokenize_word ws_def unk_def)
  have found: "\<exists>t. find_token w = Some t \<and> token_text t = w
                 \<and> token_id t < length VOCABULARY \<and> VOCABULARY ! token_id t = w"
    if "w \<in> set VOCABULARY" for w
  proof -
    from that obtain t where t: "find_token w = Some t"
      using find_token_None [of w] by (cases "find_token w") auto
    with find_token_Some [OF t] TOKENS_index [of t] show ?thesis by auto
  qed
  have hd: "hd (tokenize s) = find_token ''<START>''" by (simp add: tok)
  have len: "length (tokenize s) = Suc (length ws)" by (simp add: tok)
  have nn: "None \<noteq> find_token w" if "w \<in> set VOCABULARY" for w
    using that find_token_None [of w] by auto
  have none: "None \<notin> set (tokenize s)"
    using nn by (auto simp: tok find_START split: if_splits)
  have nth: "tokenize s ! Suc i = (if ws ! i \<in> set VOCABULARY then find_token (ws ! i) else Some unk)"
    if "i < length ws" for i
    using that by (simp add: tok)
  show ?thesis
    unfolding ws_def [symmetric] unk_def [symmetric]
    using hd len none nth found by (auto simp: find_START)
qed

theorem tokenize_total_witness:
  "(0::nat) < length (filter (\<lambda>w. w \<noteq> []) (rawWords ''i like Cats.''))
   \<and> Suc 0 < length (filter (\<lambda>w. w \<noteq> []) (rawWords ''i like Cats.''))
   \<and> filter (\<lambda>w. w \<noteq> []) (rawWords ''i like Cats.'') ! 0 = ''i''
   \<and> filter (\<lambda>w. w \<noteq> []) (rawWords ''i like Cats.'') ! Suc 0 = ''like''
   \<and> ''i'' \<notin> set VOCABULARY \<and> ''like'' \<in> set VOCABULARY
   \<and> tokenize ''i like Cats.'' ! Suc 0
        = Some \<lparr>token_id = 3, token_text = ''<UNK>'',
                 token_color = ''bg-yellow-100 text-yellow-700''\<rparr>
   \<and> (\<exists>t. tokenize ''i like Cats.'' ! Suc (Suc 0) = Some t \<and> token_text t = ''like''
           \<and> VOCABULARY ! token_id t = ''like'')"
proof -
  have ws: "filter (\<lambda>w. w \<noteq> []) (rawWords ''i like Cats.'') = [''i'', ''like'', ''Cats'', ''.'']"
    by (simp add: rawWords_def trim_def separatePunct_def is_punct_def is_space_def)
  have v: "''i'' \<notin> set VOCABULARY" "''like'' \<in> set VOCABULARY"
    by (simp_all add: VOCABULARY_def)
  note t = tokenize_total [of "''i like Cats.''", unfolded ws]
  from t v have a: "tokenize ''i like Cats.'' ! Suc 0
        = Some \<lparr>token_id = 3, token_text = ''<UNK>'',
                 token_color = ''bg-yellow-100 text-yellow-700''\<rparr>"
    by force
  from t v have b: "\<exists>t. tokenize ''i like Cats.'' ! Suc (Suc 0) = Some t \<and> token_text t = ''like''
           \<and> VOCABULARY ! token_id t = ''like''"
    by force
  show ?thesis using a b v by (simp add: ws)
qed

text \<open>
  Claim C3, as amended. When every word of the text (punctuation separated, split at
  whitespace) is a vocabulary entry other than \<^verbatim>\<open><START>\<close> and \<^verbatim>\<open><PAD>\<close>,
  \<open>detokenize (tokenize s)\<close> is the words of \<open>s\<close> joined by single spaces, without
  the space before a punctuation character, which is \<open>s\<close> up to whitespace; and
  \<open>detokenize (tokenize "I like cats.")\<close> is \<open>"I like cats."\<close> exactly. The comma is
  punctuation for the tokenizer but no vocabulary entry, so it comes back as \<^verbatim>\<open><UNK>\<close>.
\<close>

theorem roundtrip_vocabulary:
  "((\<forall>w \<in> set (rawWords s). w \<noteq> [] \<longrightarrow>
        w \<in> set VOCABULARY \<and> w \<noteq> ''<START>'' \<and> w \<noteq> ''<PAD>'') \<longrightarrow>
      (\<exists>out. detokenize (tokenize s) = Inr out
         \<and> out = dropSpaceBeforePunct
                   (join [CHR 0x20] (filter (\<lambda>w. w \<noteq> []) (rawWords s)))
         \<and> strip_ws out = strip_ws s))
   \<and> detokenize (tokenize ''I like cats.'') = Inr ''I like cats.''"
proof
  show "(\<forall>w \<in> set (rawWords s). w \<noteq> [] \<longrightarrow>
        w \<in> set VOCABULARY \<and> w \<noteq> ''<START>'' \<and> w \<noteq> ''<PAD>'') \<longrightarrow>
      (\<exists>out. detokenize (tokenize s) = Inr out
         \<and> out = dropSpaceBeforePunct
                   (join [CHR 0x20] (filter (\<lambda>w. w \<noteq> []) (rawWords s)))
         \<and> strip_ws out = strip_ws s)"
  proof
    assume hyp: "\<forall>w \<in> set (rawWords s). w \<noteq> [] \<longrightarrow>
        w \<in> set VOCABULARY \<and> w \<noteq> ''<START>'' \<and> w \<noteq> ''<PAD>''"
    define ws where "ws = filter (\<lambda>w. w \<noteq> []) (rawWords s)"
    define tok where "tok w = the (find_token w)" for w
    have in_v: "w \<in> set VOCABULARY \<and> w \<noteq> ''<START>'' \<and> w \<noteq> ''<PAD>''" if "w \<in> set ws" for w
      using that hyp by (auto simp: ws_def)
    have tok: "find_token w = Some (tok w) \<and> token_text (tok w) = w" if mem: "w \<in> set ws" for w
    proof -
      obtain t where t: "find_token w = Some t"
        using in_v [OF mem] find_token_None [of w] by (cases "find_token w") auto
      with find_token_Some [OF t] show ?thesis by (simp add: tok_def)
    qed
    have "map (\<lambda>word. case find_token word of Some found \<Rightarrow> Some found
                     | None \<Rightarrow> find_token ''<UNK>'') ws = map Some (map tok ws)"
      using tok by simp
    then have tz: "tokenize s = map Some (the (find_token ''<START>'') # map tok ws)"
      by (simp add: tokenize_def ws_def find_START)
    have keep: "filter (\<lambda>t. token_text t \<noteq> ''<START>'' \<and> token_text t \<noteq> ''<PAD>'') (map tok ws)
                = map tok ws"
      using tok in_v by (auto simp: filter_id_conv)
    have texts: "map token_text (map tok ws) = ws"
      using tok by (simp add: map_idI)
    have det: "detokenize (tokenize s) = Inr (dropSpaceBeforePunct (join [CHR 0x20] ws))"
      unfolding tz detokenize_def those_map_Some
      by (simp add: find_START keep texts del: map_map)
    have nosp: "\<forall>w\<in>set ws. \<forall>c\<in>set w. \<not> is_space c"
      using splitWs_no_space_all [of "trim (separatePunct s)"] by (auto simp: ws_def rawWords_def)
    have "strip_ws (dropSpaceBeforePunct (join [CHR 0x20] ws)) = strip_ws s"
      using strip_join [OF nosp] concat_rawWords [of s]
      by (simp add: strip_dropSpaceBeforePunct ws_def)
    then show "\<exists>out. detokenize (tokenize s) = Inr out
         \<and> out = dropSpaceBeforePunct
                   (join [CHR 0x20] (filter (\<lambda>w. w \<noteq> []) (rawWords s)))
         \<and> strip_ws out = strip_ws s"
      by (simp add: det ws_def)
  qed
next
  show "detokenize (tokenize ''I like cats.'') = Inr ''I like cats.''"
    by (simp add: detokenize_def tokenize_def rawWords_def trim_def separatePunct_def is_punct_def
      is_space_def find_token_def TOKENS_def VOCABULARY_def color_of_def TOKEN_COLORS_def
      beforePunct_def)
qed

theorem roundtrip_vocabulary_witness:
  "rawWords ''I  like cats .'' = [''I'', ''like'', ''cats'', ''.'']
   \<and> ''I'' \<in> set VOCABULARY \<and> ''like'' \<in> set VOCABULARY \<and> ''cats'' \<in> set VOCABULARY
   \<and> ''.'' \<in> set VOCABULARY
   \<and> detokenize (tokenize ''I  like cats .'') = Inr ''I like cats.''
   \<and> strip_ws ''I like cats.'' = strip_ws ''I  like cats .''"
proof -
  have ws: "rawWords ''I  like cats .'' = [''I'', ''like'', ''cats'', ''.'']"
    by (simp add: rawWords_def trim_def separatePunct_def is_punct_def is_space_def)
  have v: "''I'' \<in> set VOCABULARY" "''like'' \<in> set VOCABULARY" "''cats'' \<in> set VOCABULARY"
    "''.'' \<in> set VOCABULARY"
    by (simp_all add: VOCABULARY_def)
  have h: "\<forall>w \<in> set (rawWords ''I  like cats .''). w \<noteq> [] \<longrightarrow>
        w \<in> set VOCABULARY \<and> w \<noteq> ''<START>'' \<and> w \<noteq> ''<PAD>''"
    unfolding ws using v by simp
  have canon: "dropSpaceBeforePunct
       (join [CHR 0x20] (filter (\<lambda>w. w \<noteq> []) (rawWords ''I  like cats .'')))
     = ''I like cats.''"
    unfolding ws by (simp add: beforePunct_def is_space_def is_punct_def)
  from roundtrip_vocabulary [of "''I  like cats .''"] h
  obtain out where out: "detokenize (tokenize ''I  like cats .'') = Inr out"
    "out = dropSpaceBeforePunct
       (join [CHR 0x20] (filter (\<lambda>w. w \<noteq> []) (rawWords ''I  like cats .'')))"
    "strip_ws out = strip_ws ''I  like cats .''"
    by blast
  from out canon have d: "detokenize (tokenize ''I  like cats .'') = Inr ''I like cats.''"
    and e: "strip_ws ''I like cats.'' = strip_ws ''I  like cats .''"
    by simp_all
  from ws v d e show ?thesis by (intro conjI)
qed

text \<open>
  The round trip of a text with a comma: the comma is separated as punctuation, is not in
  the vocabulary, and is printed as the unknown token.
\<close>

theorem roundtrip_comma_counterexample:
  "detokenize (tokenize ''cats, dogs'') = Inr ''cats <UNK> dogs''
   \<and> strip_ws ''cats <UNK> dogs'' \<noteq> strip_ws ''cats, dogs''"
  by (simp add: strip_ws_def detokenize_def tokenize_def rawWords_def trim_def separatePunct_def is_punct_def
      is_space_def find_token_def TOKENS_def VOCABULARY_def color_of_def TOKEN_COLORS_def
      beforePunct_def)


subsection \<open>Embedding lookup\<close>

text \<open>
  Claim C8, as amended. With a non-empty embedding table the lookup raises no error for
  any list of ids: an id inside the table gets its row, and an id outside the table
  (negative, or at least the number of rows) gets a row of zeros as wide as row 0.
\<close>

theorem getEmbeddings_out_of_range:
  "embeddingMatrix \<noteq> [] \<Longrightarrow>
   getEmbeddings tokenIds embeddingMatrix
     = Inr (map (\<lambda>id. if 0 \<le> id \<and> id < int (length embeddingMatrix)
                      then embeddingMatrix ! nat id
                      else replicate (length (embeddingMatrix ! 0)) 0) tokenIds)"
  unfolding getEmbeddings_def
  by (rule mapE_map) (auto simp: js_nth_def)

theorem getEmbeddings_out_of_range_witness:
  "[[1, 2], [3, 4]] \<noteq> ([] :: matrix)
   \<and> getEmbeddings [1, 16, - 1] [[1, 2], [3, 4]] = Inr [[3, 4], [0, 0], [0, 0]]"
  using getEmbeddings_out_of_range [of "[[1, 2], [3, 4]]" "[1, 16, - 1]"] by simp

text \<open>
  Id 16 against a table of two rows: no error, a row of zeros.
\<close>

theorem getEmbeddings_no_error_counterexample:
  "getEmbeddings [16] [[1, 2], [3, 4]] = Inr [[0, 0]]"
  by (simp add: getEmbeddings_def js_nth_def)

subsection \<open>Sampling filter\<close>













subsection \<open>Weighted random selection\<close>

lemma sampleFrom_bound:
  "sampleFrom A r a i ps = 0
   \<or> (i \<le> sampleFrom A r a i ps \<and> sampleFrom A r a i ps < i + length ps)"
proof (induction ps arbitrary: a i)
  case Nil
  then show ?case by simp
next
  case (Cons p ps)
  from Cons [of "f_add A a p" "Suc i"] show ?case by auto
qed

lemma sampleFrom_default:
  "(\<forall>k<length ps. foldl (f_add A) a (take (Suc k) ps) < r) \<Longrightarrow> sampleFrom A r a i ps = 0"
proof (induction ps arbitrary: a i)
  case Nil
  then show ?case by simp
next
  case (Cons p ps)
  from Cons.prems have "foldl (f_add A) a (take (Suc 0) (p # ps)) < r" by blast
  then have first: "\<not> r \<le> f_add A a p" by simp
  have "\<forall>k<length ps. foldl (f_add A) (f_add A a p) (take (Suc k) ps) < r"
  proof (intro allI impI)
    fix k assume "k < length ps"
    with Cons.prems have "foldl (f_add A) a (take (Suc (Suc k)) (p # ps)) < r" by auto
    then show "foldl (f_add A) (f_add A a p) (take (Suc k) ps) < r"
      by (simp only: running_sum_step)
  qed
  from Cons.IH [OF this] first show ?case by simp
qed

lemma sampleFrom_first:
  "k < length ps \<Longrightarrow> r \<le> foldl (f_add A) a (take (Suc k) ps) \<Longrightarrow>
   (\<forall>j<k. foldl (f_add A) a (take (Suc j) ps) < r) \<Longrightarrow> sampleFrom A r a i ps = i + k"
proof (induction ps arbitrary: a i k)
  case Nil
  then show ?case by simp
next
  case (Cons p ps)
  show ?case
  proof (cases k)
    case 0
    with Cons.prems show ?thesis by simp
  next
    case (Suc k')
    from Cons.prems(3) Suc have "foldl (f_add A) a (take (Suc 0) (p # ps)) < r" by blast
    then have first: "\<not> r \<le> f_add A a p" by simp
    have lt: "k' < length ps" using Cons.prems(1) Suc by simp
    have le: "r \<le> foldl (f_add A) (f_add A a p) (take (Suc k') ps)"
      using Cons.prems(2) Suc by (simp only: running_sum_step)
    have "\<forall>j<k'. foldl (f_add A) (f_add A a p) (take (Suc j) ps) < r"
    proof (intro allI impI)
      fix j assume "j < k'"
      then have "Suc j < k" using Suc by simp
      with Cons.prems(3) have "foldl (f_add A) a (take (Suc (Suc j)) (p # ps)) < r" by blast
      then show "foldl (f_add A) (f_add A a p) (take (Suc j) ps) < r"
        by (simp only: running_sum_step)
    qed
    from Cons.IH [OF lt le this, of "Suc i"] first Suc show ?thesis by simp
  qed
qed

text \<open>
  Claim C10. Whatever the arithmetic, the selection loop returns an index of the
  probability vector for every drawn value \<open>r\<close> (and so an index of the vocabulary when
  the vector is no longer than the vocabulary). It returns the first index at which the
  running sum, as the arithmetic computes it, reaches \<open>r\<close>; when \<open>r\<close> is above the
  running sum at every index it returns 0, the first vocabulary entry, whichever entry is
  the most probable.
\<close>

theorem sampleIndex_total_default:
  "(pv \<noteq> [] \<longrightarrow> sampleIndex A r pv < length pv)
   \<and> (length pv \<le> length VOCAB \<longrightarrow> sampleIndex A r pv < length VOCAB)
   \<and> ((\<forall>k<length pv. accumulatedAt A pv k < r) \<longrightarrow> sampleIndex A r pv = 0)
   \<and> (\<forall>k<length pv.
        r \<le> accumulatedAt A pv k \<and> (\<forall>j<k. accumulatedAt A pv j < r)
        \<longrightarrow> sampleIndex A r pv = k)"
proof -
  have b: "sampleIndex A r pv = 0 \<or> sampleIndex A r pv < length pv"
    using sampleFrom_bound [of A r 0 0 pv] by (auto simp: sampleIndex_def)
  have v: "0 < length VOCAB" by (simp add: VOCAB_def)
  have d: "(\<forall>k<length pv. accumulatedAt A pv k < r) \<longrightarrow> sampleIndex A r pv = 0"
    using sampleFrom_default [of pv A 0 r 0] by (simp add: sampleIndex_def accumulatedAt_def)
  have f: "sampleIndex A r pv = k"
    if "k < length pv" "r \<le> accumulatedAt A pv k" "\<forall>j<k. accumulatedAt A pv j < r" for k
    using sampleFrom_first [of k pv r A 0 0] that by (simp add: sampleIndex_def accumulatedAt_def)
  have c1: "pv \<noteq> [] \<longrightarrow> sampleIndex A r pv < length pv"
    using b by (cases pv) auto
  have c2: "length pv \<le> length VOCAB \<longrightarrow> sampleIndex A r pv < length VOCAB"
    using b v by linarith
  have c4: "\<forall>k<length pv.
        r \<le> accumulatedAt A pv k \<and> (\<forall>j<k. accumulatedAt A pv j < r)
        \<longrightarrow> sampleIndex A r pv = k"
    using f by blast
  from c1 c2 d c4 show ?thesis by (intro conjI)
qed

text \<open>
  In double arithmetic: with the probabilities \<open>1/2\<close> and \<open>1/4\<close> and \<open>r = 7/8\<close> no
  running sum reaches \<open>r\<close> and the index is 0. With \<open>1/2\<close> and \<open>3 / 2^54\<close> and
  \<open>r = 1/2 + 2^-52\<close> the second running sum rounds up to \<open>r\<close> and the index is 1, where
  exact sums stay below \<open>r\<close> and give 0.
\<close>

theorem sampleIndex_total_default_witness:
  "[1 / 2, 1 / 4] \<noteq> ([] :: real list)
   \<and> length [1 / 2, 1 / 4 :: real] \<le> length VOCAB
   \<and> accumulatedAt doubleArithmetic [1 / 2, 1 / 4] 0 = 1 / 2
   \<and> accumulatedAt doubleArithmetic [1 / 2, 1 / 4] 1 = 3 / 4
   \<and> sampleIndex doubleArithmetic (7 / 8) [1 / 2, 1 / 4] = 0
   \<and> sampleIndex doubleArithmetic (7 / 8) [1 / 2, 1 / 4] < length VOCAB
   \<and> (1::nat) < length [1 / 2, 3 / 2 ^ 54 :: real]
   \<and> accumulatedAt doubleArithmetic [1 / 2, 3 / 2 ^ 54] 0 = 1 / 2
   \<and> accumulatedAt doubleArithmetic [1 / 2, 3 / 2 ^ 54] 1 = 1 / 2 + 1 / 2 ^ 52
   \<and> sampleIndex doubleArithmetic (1 / 2 + 1 / 2 ^ 52) [1 / 2, 3 / 2 ^ 54] = 1
   \<and> accumulatedAt exactArithmetic [1 / 2, 3 / 2 ^ 54] 1 = 1 / 2 + 3 / 2 ^ 54
   \<and> sampleIndex exactArithmetic (1 / 2 + 1 / 2 ^ 52) [1 / 2, 3 / 2 ^ 54] = 0"
proof -
  let ?ps = "[1 / 2, 1 / 4] :: real list"
  let ?qs = "[1 / 2, 3 / 2 ^ 54] :: real list"
  let ?r = "1 / 2 + 1 / 2 ^ 52 :: real"
  have r1: "roundDouble (0 + 1 / 2) = 1 / 2"
    by (subst roundDouble_half_one) (simp_all add: roundHalfEven_def Let_def)
  have r2: "roundDouble (1 / 2 + 1 / 4) = 3 / 4"
    by (subst roundDouble_half_one) (simp_all add: roundHalfEven_def Let_def)
  have r3: "roundDouble (1 / 2 + 3 / 2 ^ 54) = 1 / 2 + 1 / 2 ^ 52"
    by (subst roundDouble_half_one) (simp_all add: roundHalfEven_def Let_def)
  have p0: "accumulatedAt doubleArithmetic ?ps 0 = 1 / 2"
    by (simp only: accumulatedAt_def One_nat_def take_Suc_Cons take_0 foldl_Cons foldl_Nil
        double_ops r1)
  have p1: "accumulatedAt doubleArithmetic ?ps 1 = 3 / 4"
    by (simp only: accumulatedAt_def One_nat_def take_Suc_Cons take_0 foldl_Cons foldl_Nil
        double_ops r1 r2)
  have q0: "accumulatedAt doubleArithmetic ?qs 0 = 1 / 2"
    by (simp only: accumulatedAt_def One_nat_def take_Suc_Cons take_0 foldl_Cons foldl_Nil
        double_ops r1)
  have q1: "accumulatedAt doubleArithmetic ?qs 1 = ?r"
    by (simp only: accumulatedAt_def One_nat_def take_Suc_Cons take_0 foldl_Cons foldl_Nil
        double_ops r1 r3)
  have x0: "accumulatedAt exactArithmetic ?qs 0 = 1 / 2"
    by (simp add: accumulatedAt_def exactArithmetic_def)
  have x1: "accumulatedAt exactArithmetic ?qs 1 = 1 / 2 + 3 / 2 ^ 54"
    by (simp add: accumulatedAt_def exactArithmetic_def)
  have l: "length ?ps \<le> length VOCAB" by (simp add: VOCAB_def)
  have h: "\<forall>k<length ?ps. accumulatedAt doubleArithmetic ?ps k < 7 / 8"
    using p0 p1 by (simp add: less_Suc_eq)
  from sampleIndex_total_default [of ?ps doubleArithmetic "7 / 8"] h l
  have a: "sampleIndex doubleArithmetic (7 / 8) ?ps = 0
           \<and> sampleIndex doubleArithmetic (7 / 8) ?ps < length VOCAB" by blast
  have g: "?r \<le> accumulatedAt doubleArithmetic ?qs 1
           \<and> (\<forall>j<1. accumulatedAt doubleArithmetic ?qs j < ?r)"
    using q0 q1 by simp
  have one: "(1::nat) < length ?qs" by simp
  from sampleIndex_total_default [of ?qs doubleArithmetic ?r] one g
  have b: "sampleIndex doubleArithmetic ?r ?qs = 1" by blast
  have hx: "\<forall>k<length ?qs. accumulatedAt exactArithmetic ?qs k < ?r"
    using x0 x1 by (simp add: less_Suc_eq)
  from sampleIndex_total_default [of ?qs exactArithmetic ?r] hx
  have c: "sampleIndex exactArithmetic ?r ?qs = 0" by blast
  have ne: "?ps \<noteq> []" by simp
  from a have a1: "sampleIndex doubleArithmetic (7 / 8) ?ps = 0" by (rule conjunct1)
  from a have a2: "sampleIndex doubleArithmetic (7 / 8) ?ps < length VOCAB" by (rule conjunct2)
  from ne l p0 p1 a1 a2 one q0 q1 b x1 c show ?thesis by (intro conjI)
qed

subsection \<open>Attention stage\<close>






















lemma toFixed_int: "\<bar>real_of_int k\<bar> < 10 ^ 21 \<Longrightarrow> toFixed n (real_of_int k) = real_of_int k"
proof -
  assume a: "\<bar>real_of_int k\<bar> < 10 ^ 21"
  have "\<bar>real_of_int k\<bar> * 10 ^ n = real_of_int (\<bar>k\<bar> * 10 ^ n)" by simp
  then have "\<lfloor>\<bar>real_of_int k\<bar> * 10 ^ n + 1 / 2\<rfloor> = \<bar>k\<bar> * 10 ^ n"
    by (simp only: ) (intro floor_unique; simp)
  then have "toFixed n (real_of_int k) = sgn (real_of_int k) * (real_of_int (\<bar>k\<bar> * 10 ^ n)) / 10 ^ n"
    using a by (simp add: toFixed_def)
  also have "\<dots> = sgn (real_of_int k) * \<bar>real_of_int k\<bar>" by simp
  finally show ?thesis by (simp add: sgn_mult_abs)
qed






subsection \<open>Forward pass\<close>

lemma generateMatrix_length: "length (generateMatrix r c s) = r"
  by (simp add: generateMatrix_def)

lemma generateMatrix_row: "row \<in> set (generateMatrix r c s) \<Longrightarrow> length row = c"
  by (auto simp: generateMatrix_def)

lemma generateMatrix_nth: "i < r \<Longrightarrow> length (generateMatrix r c s ! i) = c"
  by (simp add: generateMatrix_def)

lemma mapE_all:
  "(\<And>x. x \<in> set xs \<Longrightarrow> \<exists>y. f x = Inr y \<and> P y) \<Longrightarrow>
   \<exists>ys. mapE f xs = Inr ys \<and> length ys = length xs \<and> (\<forall>y\<in>set ys. P y)"
proof (induction xs)
  case Nil
  then show ?case by simp
next
  case (Cons x xs)
  from Cons.prems [of x] obtain y where y: "f x = Inr y" "P y" by auto
  from Cons.IH Cons.prems obtain ys where
    ys: "mapE f xs = Inr ys" "length ys = length xs" "\<forall>y\<in>set ys. P y"
    by (metis list.set_intros(2))
  show ?case using y ys by simp
qed

lemma matMulVector_ok:
  assumes "matrix \<noteq> []" "\<forall>row\<in>set matrix. length row = c" "0 < c"
    "length vec \<le> length matrix"
  shows "\<exists>v. matMulVector vec matrix = Inr v \<and> length v = c"
proof -
  from assms(1) obtain m0 rest where m: "matrix = m0 # rest" by (cases matrix) auto
  have c: "length m0 = c" using assms(2) m by simp
  have "\<not> list_ex (\<lambda>row. length row < c) (take (length vec) matrix)"
    using assms(2) by (auto simp: list_ex_iff dest: in_set_takeD)
  then show ?thesis
    using assms(3,4) c unfolding matMulVector_def m [symmetric]
    by (simp add: m Let_def)
qed

lemma addVectors_length: "length (addVectors a b) = length a"
  by (simp add: addVectors_def)

lemma softmax_ok: "T \<noteq> 0 \<Longrightarrow> \<exists>p. softmax A l T = Inr p \<and> length p = length l"
  by (simp add: softmax_def Let_def)

lemma indexFrom_range:
  "w \<in> set xs \<Longrightarrow> int i \<le> indexFrom i w xs \<and> indexFrom i w xs < int (i + length xs)"
proof (induction xs arbitrary: i)
  case Nil
  then show ?case by simp
next
  case (Cons x xs)
  show ?case
  proof (cases "x = w")
    case True
    then show ?thesis by simp
  next
    case False
    with Cons.prems have "w \<in> set xs" by simp
    from Cons.IH [OF this, of "Suc i"] False show ?thesis by simp
  qed
qed


lemma enumerate_snd_mem: "x \<in> set (enumerate n xs) \<Longrightarrow> snd x \<in> set xs"
proof -
  assume "x \<in> set (enumerate n xs)"
  then have "snd x \<in> set (map snd (enumerate n xs))" by (simp only: set_map) (rule imageI)
  then show ?thesis by (simp only: map_snd_enumerate)
qed

lemma dotProduct_ok: "length a \<le> length b \<Longrightarrow> \<exists>s. dotProduct a b = Inr s"
  by (simp add: dotProduct_def)

lemma app_scoreRow_ok:
  assumes "0 < d" "\<forall>k\<in>set K. length q \<le> length k"
  shows "\<exists>r. app_scoreRow d K i q = Inr r \<and> length r = length K"
proof -
  have "\<exists>ys. mapE (\<lambda>(j, k).
            if i < j then Inr (- 1000000000)
            else bindE (dotProduct q k) (\<lambda>x.
                   if d = 0 then Inl NotANumber else Inr (x / sqrt (real d))))
       (enumerate 0 K) = Inr ys \<and> length ys = length (enumerate 0 K) \<and> (\<forall>y\<in>set ys. True)"
  proof (rule mapE_all)
    fix x assume "x \<in> set (enumerate 0 K)"
    then have "snd x \<in> set K" by (rule enumerate_snd_mem)
    moreover obtain j k where "x = (j, k)" by (cases x)
    ultimately have x: "x = (j, k)" "k \<in> set K" by simp_all
    from assms(2) x(2) obtain s where "dotProduct q k = Inr s"
      using dotProduct_ok [of q k] by auto
    then show "\<exists>y. (case x of (j, k) \<Rightarrow>
            if i < j then Inr (- 1000000000)
            else bindE (dotProduct q k) (\<lambda>x.
                   if d = 0 then Inl NotANumber else Inr (x / sqrt (real d)))) = Inr y \<and> True"
      using assms(1) by (simp add: x bindE_def)
  qed
  then show ?thesis by (simp add: app_scoreRow_def)
qed

lemma attentionRows_ok:
  assumes "0 < d" "\<forall>q\<in>set Q. length q = d" "\<forall>k\<in>set K. length k = d"
  shows "\<exists>rows. attentionRows A d Q K = Inr rows \<and> length rows = length Q
           \<and> (\<forall>row\<in>set rows. length (snd row) = length K)"
proof -
  have "\<exists>ys. mapE (\<lambda>(i, q). bindE (app_scoreRow d K i q) (\<lambda>rowScores.
                      bindE (softmax A rowScores 1) (\<lambda>w. Inr (rowScores, w))))
       (enumerate 0 Q) = Inr ys \<and> length ys = length (enumerate 0 Q)
       \<and> (\<forall>y\<in>set ys. length (snd y) = length K)"
  proof (rule mapE_all)
    fix x assume "x \<in> set (enumerate 0 Q)"
    then have "snd x \<in> set Q" by (rule enumerate_snd_mem)
    moreover obtain i q where "x = (i, q)" by (cases x)
    ultimately have x: "x = (i, q)" "q \<in> set Q" by simp_all
    have "\<forall>k\<in>set K. length q \<le> length k" using assms x by simp
    from app_scoreRow_ok [OF assms(1) this, of i] obtain r where
      r: "app_scoreRow d K i q = Inr r" "length r = length K" by auto
    from softmax_ok [of 1 A r] obtain w where w: "softmax A r 1 = Inr w" "length w = length r"
      by auto
    show "\<exists>y. (case x of (i, q) \<Rightarrow> bindE (app_scoreRow d K i q) (\<lambda>rowScores.
                      bindE (softmax A rowScores 1) (\<lambda>w. Inr (rowScores, w)))) = Inr y
             \<and> length (snd y) = length K"
      by (simp add: x r w bindE_def)
  qed
  then show ?thesis by (simp add: attentionRows_def)
qed

lemma attentionOut_ok:
  assumes "length V = n" "length w = n" "\<forall>v\<in>set V. length v = d"
  shows "\<exists>out. attentionOut d n V w = Inr out \<and> length out = d"
proof -
  have "\<not> list_ex (\<lambda>v. length v < d) (take n V)"
    using assms(3) by (auto simp: list_ex_iff dest: in_set_takeD)
  then show ?thesis using assms(1,2) by (simp add: attentionOut_def)
qed

lemma map2_addVectors_rows:
  "\<forall>a\<in>set A. length a = d \<Longrightarrow> \<forall>y\<in>set (map2 addVectors A B). length y = d"
  by (auto simp: addVectors_length dest!: set_zip_leftD)


lemma bindE_Inr: "bindE (Inr x) f = f x"
  by (simp add: bindE_def)


lemma matMulVector_generate:
  assumes "0 < r" "0 < c" "length vec \<le> r"
  shows "\<exists>v. matMulVector vec (generateMatrix r c s) = Inr v \<and> length v = c"
proof (rule matMulVector_ok)
  show "generateMatrix r c s \<noteq> []"
    using generateMatrix_length [of r c s] assms(1) by auto
  show "\<forall>row\<in>set (generateMatrix r c s). length row = c"
    by (simp add: generateMatrix_row)
  show "0 < c" by (rule assms(2))
  show "length vec \<le> length (generateMatrix r c s)"
    using assms(3) by (simp add: generateMatrix_length)
qed

text \<open>Magnitudes of the exact forward pass.\<close>

lemma generateMatrix_bound:
  "row \<in> set (generateMatrix r c s) \<Longrightarrow> v \<in> set row \<Longrightarrow> \<bar>v\<bar> \<le> 1 / 2"
proof -
  have "\<bar>sin t * (1 / 2)\<bar> \<le> 1 / 2" for t :: real
    using abs_sin_le_one [of t] by (simp add: abs_mult)
  then show "row \<in> set (generateMatrix r c s) \<Longrightarrow> v \<in> set row \<Longrightarrow> \<bar>v\<bar> \<le> 1 / 2"
    by (auto simp: generateMatrix_def)
qed

lemma addVectors_bound:
  assumes "\<forall>v\<in>set a. \<bar>v\<bar> \<le> 1 / 2" "\<forall>v\<in>set b. \<bar>v\<bar> \<le> 1 / 2"
  shows "\<forall>v\<in>set (addVectors a b). \<bar>v\<bar> \<le> 1"
proof
  fix v assume "v \<in> set (addVectors a b)"
  then obtain i x where ix: "(i, x) \<in> set (enumerate 0 a)"
    and v: "v = x + (case js_nth b (int i) of Some y \<Rightarrow> y | None \<Rightarrow> 0)"
    by (auto simp: addVectors_def)
  from ix have "x \<in> set a" using enumerate_snd_mem [OF ix] by simp
  with assms(1) have x: "\<bar>x\<bar> \<le> 1 / 2" by simp
  have "\<bar>case js_nth b (int i) of Some y \<Rightarrow> y | None \<Rightarrow> 0\<bar> \<le> 1 / 2"
    using assms(2) by (auto simp: js_nth_def)
  with x show "\<bar>v\<bar> \<le> 1" unfolding v by linarith
qed

lemma sum_list_zip_bound:
  fixes f :: "'a \<Rightarrow> 'b \<Rightarrow> real"
  assumes "\<And>x y. (x, y) \<in> set (zip xs ys) \<Longrightarrow> \<bar>f x y\<bar> \<le> c"
  shows "\<bar>sum_list (map2 f xs ys)\<bar> \<le> real (length (zip xs ys)) * c"
proof -
  have "\<bar>sum_list (map (\<lambda>(x, y). f x y) zs)\<bar> \<le> real (length zs) * c"
    if "\<And>x y. (x, y) \<in> set zs \<Longrightarrow> \<bar>f x y\<bar> \<le> c" for zs
    using that
  proof (induction zs)
    case Nil
    then show ?case by simp
  next
    case (Cons z zs)
    obtain x y where z: "z = (x, y)" by (cases z)
    have "\<bar>f x y\<bar> \<le> c" using Cons.prems [of x y] z by simp
    moreover have "\<bar>sum_list (map (\<lambda>(x, y). f x y) zs)\<bar> \<le> real (length zs) * c"
      using Cons by simp
    ultimately show ?case by (simp add: z algebra_simps)
  qed
  from this [of "zip xs ys"] assms show ?thesis by simp
qed

lemma matMulVector_bound:
  assumes mv: "matMulVector vec (generateMatrix r c s) = Inr out"
    and len: "length vec \<le> r" and vec: "\<forall>x\<in>set vec. \<bar>x\<bar> \<le> b" and b: "0 \<le> b"
  shows "\<forall>y\<in>set out. \<bar>y\<bar> \<le> real (length vec) * (b * (1 / 2))"
proof (cases "generateMatrix r c s")
  case Nil
  with mv show ?thesis by (simp add: matMulVector_def)
next
  case (Cons m0 rest)
  let ?M = "generateMatrix r c s"
  have rows: "\<forall>row\<in>set ?M. length row = c" by (simp add: generateMatrix_row)
  then have c: "length m0 = c" using Cons by simp
  show ?thesis
  proof (cases "c = 0")
    case True
    with mv Cons c show ?thesis by (simp add: matMulVector_def)
  next
    case False
    with mv Cons c have out: "out = map (\<lambda>j. sum_list (map2 (\<lambda>v row. v * row ! j) vec ?M)) [0..<c]"
      by (auto simp: matMulVector_def Let_def split: if_splits)
    show ?thesis
    proof
      fix y assume "y \<in> set out"
      then obtain j where j: "j < c" and y: "y = sum_list (map2 (\<lambda>v row. v * row ! j) vec ?M)"
        by (auto simp: out)
      have "\<bar>v * row ! j\<bar> \<le> b * (1 / 2)" if "(v, row) \<in> set (zip vec ?M)" for v row
      proof -
        from that have v: "v \<in> set vec" and row: "row \<in> set ?M"
          by (auto dest: set_zip_leftD set_zip_rightD)
        from row rows j have "row ! j \<in> set row" by simp
        from generateMatrix_bound [OF row this] have "\<bar>row ! j\<bar> \<le> 1 / 2" .
        moreover from v vec have "\<bar>v\<bar> \<le> b" by simp
        ultimately have "\<bar>v\<bar> * \<bar>row ! j\<bar> \<le> b * (1 / 2)" by (intro mult_mono) simp_all
        then show ?thesis by (simp add: abs_mult)
      qed
      from sum_list_zip_bound [of vec ?M "\<lambda>v row. v * row ! j", OF this]
      have "\<bar>y\<bar> \<le> real (length (zip vec ?M)) * (b * (1 / 2))" by (simp add: y)
      moreover have "length (zip vec ?M) = length vec"
        using len by (simp add: generateMatrix_length)
      ultimately show "\<bar>y\<bar> \<le> real (length vec) * (b * (1 / 2))" by simp
    qed
  qed
qed

lemma dotProduct_bound:
  assumes "dotProduct a b = Inr s" "\<forall>x\<in>set a. \<bar>x\<bar> \<le> c" "\<forall>x\<in>set b. \<bar>x\<bar> \<le> c" "0 \<le> c"
  shows "\<bar>s\<bar> \<le> real (length a) * (c * c)"
proof -
  from assms(1) have s: "s = sum_list (map2 (\<lambda>x y. x * y) a b)" and l: "length a \<le> length b"
    by (auto simp: dotProduct_def split: if_splits)
  have "\<bar>x * y\<bar> \<le> c * c" if "(x, y) \<in> set (zip a b)" for x y
  proof -
    from that have "x \<in> set a" "y \<in> set b" by (auto dest: set_zip_leftD set_zip_rightD)
    with assms(2,3) have "\<bar>x\<bar> \<le> c" "\<bar>y\<bar> \<le> c" by simp_all
    then have "\<bar>x\<bar> * \<bar>y\<bar> \<le> c * c" using assms(4) by (intro mult_mono) simp_all
    then show ?thesis by (simp add: abs_mult)
  qed
  from sum_list_zip_bound [of a b "\<lambda>x y. x * y", OF this]
  have "\<bar>s\<bar> \<le> real (length (zip a b)) * (c * c)" by (simp add: s)
  moreover have "length (zip a b) = length a" using l by simp
  ultimately show ?thesis by simp
qed

lemma embedToken_bound:
  assumes "pos < 20" "w \<in> set VOCAB"
  shows "\<exists>e. embedToken (app_weights d) (pos, Some w) = Inr e \<and> length (emb_final e) = d
           \<and> (\<forall>v\<in>set (emb_final e). \<bar>v\<bar> \<le> 1)"
proof -
  let ?id = "indexOf VOCAB (Some w)"
  have r: "0 \<le> ?id" "?id < int (length VOCAB)"
    using indexFrom_range [OF assms(2), of 0] by (simp_all add: indexOf_def)
  then have n: "nat ?id < length VOCAB" by simp
  let ?e = "generateMatrix (length VOCAB) d 8 ! nat ?id"
  let ?p = "generateMatrix 20 d 9 ! pos"
  have e: "js_nth (w_embeddings (app_weights d)) ?id = Some ?e"
    using r by (simp add: js_nth_def app_weights_def generateMatrix_length)
  have p: "js_nth (posEncodings (app_weights d)) (int pos) = Some ?p"
    using assms(1) by (simp add: js_nth_def app_weights_def generateMatrix_length)
  have "?e \<in> set (generateMatrix (length VOCAB) d 8)"
    using n by (simp add: generateMatrix_length)
  then have be: "\<forall>v\<in>set ?e. \<bar>v\<bar> \<le> 1 / 2" using generateMatrix_bound by blast
  have "?p \<in> set (generateMatrix 20 d 9)"
    using assms(1) by (simp add: generateMatrix_length)
  then have bp: "\<forall>v\<in>set ?p. \<bar>v\<bar> \<le> 1 / 2" using generateMatrix_bound by blast
  have "embedToken (app_weights d) (pos, Some w)
          = Inr \<lparr>emb_token = Some w, emb_base = Some ?e, emb_pos = Some ?p,
                 emb_final = addVectors ?e ?p\<rparr>"
    by (simp add: embedToken_def e p Let_def addVectorsU_def bindE_def)
  moreover have "length (addVectors ?e ?p) = d"
    using generateMatrix_nth [OF n, of d 8] by (simp add: addVectors_length)
  ultimately show ?thesis using addVectors_bound [OF be bp] by simp
qed

lemma runPipeline_stages:
  assumes d: "0 < d" and T: "T \<noteq> 0" and ne: "toks \<noteq> []" and len: "length toks \<le> 20"
    and voc: "\<forall>t\<in>set toks. \<exists>w\<in>set VOCAB. t = Some w"
  shows "\<exists>res. runPipeline A d T toks = Inr res \<and> p_tokens res = toks
           \<and> length (finalBlockOutput res) = length toks
           \<and> outputHead (finalBlockOutput res) (wVocab (app_weights d)) = Inr (logits res)
           \<and> length (logits res) = length VOCAB \<and> length (probs res) = length VOCAB
           \<and> length (attentionScores res) = length toks
           \<and> length (attentionWeights res) = length toks
           \<and> (\<forall>i<length toks.
                 softmax A (attentionScores res ! i) 1 = Inr (attentionWeights res ! i)
               \<and> length (attentionScores res ! i) = length toks
               \<and> (\<forall>j<length toks. i < j \<longrightarrow> attentionScores res ! i ! j = - 1000000000)
               \<and> \<bar>attentionScores res ! i ! i\<bar> \<le> real d ^ 3 / 4)"
proof -
  define W where "W = app_weights d"
  define n where "n = length toks"
  have wq: "wQ W = generateMatrix d d 1" and wk: "wK W = generateMatrix d d 2"
    and wv: "wV W = generateMatrix d d 3" and w1: "wFF1 W = generateMatrix d (d * 2) 5"
    and w2: "wFF2 W = generateMatrix (d * 2) d 6"
    and wvo: "wVocab W = generateMatrix d (length VOCAB) 7"
    by (simp_all add: W_def app_weights_def)
  have gne: "generateMatrix r c s \<noteq> []" if "0 < r" for r c s
    using generateMatrix_length [of r c s] that by auto
  have vpos: "0 < length VOCAB" by (simp add: VOCAB_def)
  \<comment> \<open>embedding\<close>
  have "\<exists>ys. mapE (embedToken W) (enumerate 0 toks) = Inr ys
          \<and> length ys = length (enumerate 0 toks)
          \<and> (\<forall>y\<in>set ys. length (emb_final y) = d \<and> (\<forall>v\<in>set (emb_final y). \<bar>v\<bar> \<le> 1))"
  proof (rule mapE_all)
    fix x assume x: "x \<in> set (enumerate 0 toks)"
    obtain pos t where xp: "x = (pos, t)" by (cases x)
    from x xp have "pos < length toks" "t \<in> set toks"
      using enumerate_snd_mem [OF x] by (auto simp: in_set_enumerate_eq)
    with len voc obtain w where "pos < 20" "w \<in> set VOCAB" "t = Some w" by auto
    with embedToken_bound [of pos w d]
    show "\<exists>y. embedToken W x = Inr y
            \<and> length (emb_final y) = d \<and> (\<forall>v\<in>set (emb_final y). \<bar>v\<bar> \<le> 1)"
      by (simp add: xp W_def)
  qed
  then obtain embs where embs: "mapE (embedToken W) (enumerate 0 toks) = Inr embs"
    "length embs = n" "\<forall>y\<in>set embs. length (emb_final y) = d"
    "\<forall>y\<in>set embs. \<forall>v\<in>set (emb_final y). \<bar>v\<bar> \<le> 1"
    by (auto simp: n_def)
  define X where "X = map emb_final embs"
  have X: "length X = n" "\<forall>x\<in>set X. length x = d" "\<forall>x\<in>set X. \<forall>v\<in>set x. \<bar>v\<bar> \<le> 1"
    using embs by (auto simp: X_def)
  \<comment> \<open>projections\<close>
  have proj: "\<exists>ys. mapE (\<lambda>vec. matMulVector vec (generateMatrix d d s)) X = Inr ys
          \<and> length ys = length X
          \<and> (\<forall>y\<in>set ys. length y = d \<and> (\<forall>v\<in>set y. \<bar>v\<bar> \<le> real d / 2))" for s
  proof (rule mapE_all)
    fix vec assume v: "vec \<in> set X"
    with X have l: "length vec = d" and le: "length vec \<le> d" and b: "\<forall>x\<in>set vec. \<bar>x\<bar> \<le> 1"
      by simp_all
    from matMulVector_generate [OF d d le, of s]
    obtain y where y: "matMulVector vec (generateMatrix d d s) = Inr y" "length y = d" by blast
    from matMulVector_bound [OF y(1) le b] have "\<forall>v\<in>set y. \<bar>v\<bar> \<le> real d / 2"
      by (simp add: l)
    with y show "\<exists>y. matMulVector vec (generateMatrix d d s) = Inr y
                 \<and> length y = d \<and> (\<forall>v\<in>set y. \<bar>v\<bar> \<le> real d / 2)" by blast
  qed
  from proj [of 1] obtain Q where Q: "mapE (\<lambda>vec. matMulVector vec (wQ W)) X = Inr Q"
    "length Q = n" "\<forall>y\<in>set Q. length y = d" "\<forall>y\<in>set Q. \<forall>v\<in>set y. \<bar>v\<bar> \<le> real d / 2"
    using X(1) by (auto simp: wq)
  from proj [of 2] obtain K where K: "mapE (\<lambda>vec. matMulVector vec (wK W)) X = Inr K"
    "length K = n" "\<forall>y\<in>set K. length y = d" "\<forall>y\<in>set K. \<forall>v\<in>set y. \<bar>v\<bar> \<le> real d / 2"
    using X(1) by (auto simp: wk)
  from proj [of 3] obtain V where V: "mapE (\<lambda>vec. matMulVector vec (wV W)) X = Inr V"
    "length V = n" "\<forall>y\<in>set V. length y = d" "\<forall>y\<in>set V. \<forall>v\<in>set y. \<bar>v\<bar> \<le> real d / 2"
    using X(1) by (auto simp: wv)
  \<comment> \<open>attention\<close>
  from attentionRows_ok [OF d Q(3) K(3), of A] obtain rows where
    rows: "attentionRows A d Q K = Inr rows" "length rows = n"
    "\<forall>row\<in>set rows. length (snd row) = n"
    using Q(2) K(2) by auto
  have row: "softmax A (fst (rows ! i)) 1 = Inr (snd (rows ! i))
               \<and> length (fst (rows ! i)) = n
               \<and> (\<forall>j<n. i < j \<longrightarrow> fst (rows ! i) ! j = - 1000000000)
               \<and> \<bar>fst (rows ! i) ! i\<bar> \<le> real d ^ 3 / 4" if i: "i < n" for i
  proof -
    from i Q(2) have iq: "i < length (enumerate 0 Q)" by simp
    with mapE_Inr [OF rows(1) [unfolded attentionRows_def]]
    have "(\<lambda>(i, q). bindE (app_scoreRow d K i q) (\<lambda>rowScores.
             bindE (softmax A rowScores 1) (\<lambda>w. Inr (rowScores, w)))) (enumerate 0 Q ! i)
          = Inr (rows ! i)" by blast
    then have "bindE (app_scoreRow d K i (Q ! i)) (\<lambda>rowScores.
             bindE (softmax A rowScores 1) (\<lambda>w. Inr (rowScores, w))) = Inr (rows ! i)"
      using i Q(2) by (simp add: nth_enumerate_eq)
    then obtain rs w where rs: "app_scoreRow d K i (Q ! i) = Inr rs"
      and w: "softmax A rs 1 = Inr w" and ri: "rows ! i = (rs, w)"
      by (auto simp: bindE_def split: sum.splits)
    note m = mapE_Inr [OF rs [unfolded app_scoreRow_def]]
    have lr: "length rs = n" using m K(2) by simp
    have entry: "(if i < j then Inr (- 1000000000)
                  else bindE (dotProduct (Q ! i) (K ! j)) (\<lambda>x.
                         if d = 0 then Inl NotANumber else Inr (x / sqrt (real d))))
                 = Inr (rs ! j)" if "j < n" for j
    proof -
      from that K(2) have "j < length (enumerate 0 K)" by simp
      with m have "(\<lambda>(j, k). if i < j then Inr (- 1000000000)
            else bindE (dotProduct (Q ! i) k) (\<lambda>x.
                   if d = 0 then Inl NotANumber else Inr (x / sqrt (real d))))
          (enumerate 0 K ! j) = Inr (rs ! j)" by blast
      then show ?thesis using that K(2) by (simp add: nth_enumerate_eq)
    qed
    have mask: "\<forall>j<n. i < j \<longrightarrow> rs ! j = - 1000000000"
    proof (intro allI impI)
      fix j assume j: "j < n" "i < j"
      from entry [OF j(1)] j(2) show "rs ! j = - 1000000000" by simp
    qed
    from entry [OF i] obtain s where s: "dotProduct (Q ! i) (K ! i) = Inr s"
      and rsi: "rs ! i = s / sqrt (real d)"
      using d by (auto simp: bindE_def split: sum.splits)
    have qi: "Q ! i \<in> set Q" and ki: "K ! i \<in> set K" using i Q(2) K(2) by simp_all
    have "\<bar>s\<bar> \<le> real (length (Q ! i)) * (real d / 2 * (real d / 2))"
      using qi ki Q(4) K(4) by (intro dotProduct_bound [OF s]) simp_all
    also have "\<dots> = real d ^ 3 / 4" using qi Q(3) by (simp add: power3_eq_cube)
    finally have sb: "\<bar>s\<bar> \<le> real d ^ 3 / 4" .
    have "1 \<le> sqrt (real d)" using d by simp
    then have "\<bar>s\<bar> / sqrt (real d) \<le> \<bar>s\<bar> / 1" by (intro divide_left_mono) simp_all
    then have "\<bar>s\<bar> / sqrt (real d) \<le> \<bar>s\<bar>" by simp
    moreover have "\<bar>rs ! i\<bar> = \<bar>s\<bar> / sqrt (real d)" by (simp add: rsi)
    ultimately have "\<bar>rs ! i\<bar> \<le> real d ^ 3 / 4" using sb by linarith
    with w lr mask show ?thesis by (simp add: ri)
  qed
  have "\<exists>ys. mapE (attentionOut d n V) (map snd rows) = Inr ys
          \<and> length ys = length (map snd rows) \<and> (\<forall>y\<in>set ys. length y = d)"
  proof (rule mapE_all)
    fix w assume "w \<in> set (map snd rows)"
    with rows(3) have "length w = n" by auto
    from attentionOut_ok [OF V(2) this V(3)]
    show "\<exists>y. attentionOut d n V w = Inr y \<and> length y = d" .
  qed
  then obtain ao where ao: "mapE (attentionOut d n V) (map snd rows) = Inr ao"
    "length ao = n" "\<forall>y\<in>set ao. length y = d"
    using rows(2) by auto
  define pa where "pa = map2 addVectors ao X"
  have pa: "length pa = n" "\<forall>y\<in>set pa. length y = d"
    using ao X map2_addVectors_rows [OF ao(3), of X] by (simp_all add: pa_def)
  \<comment> \<open>feed forward\<close>
  have d2: "0 < d * 2" using d by simp
  have "\<exists>ys. mapE (\<lambda>vec. bindE (matMulVector vec (wFF1 W)) (\<lambda>h. Inr (relu h))) pa = Inr ys
          \<and> length ys = length pa \<and> (\<forall>y\<in>set ys. length y = d * 2)"
  proof (rule mapE_all)
    fix vec assume "vec \<in> set pa"
    with pa have "length vec \<le> d" by simp
    from matMulVector_generate [OF d d2 this, of 5]
    obtain v where "matMulVector vec (generateMatrix d (d * 2) 5) = Inr v" "length v = d * 2"
      by auto
    then show "\<exists>y. bindE (matMulVector vec (wFF1 W)) (\<lambda>h. Inr (relu h)) = Inr y
                 \<and> length y = d * 2"
      by (simp add: w1 bindE_def relu_def)
  qed
  then obtain fh where fh:
    "mapE (\<lambda>vec. bindE (matMulVector vec (wFF1 W)) (\<lambda>h. Inr (relu h))) pa = Inr fh"
    "length fh = n" "\<forall>y\<in>set fh. length y = d * 2"
    using pa(1) by auto
  have "\<exists>ys. mapE (\<lambda>vec. matMulVector vec (wFF2 W)) fh = Inr ys
          \<and> length ys = length fh \<and> (\<forall>y\<in>set ys. length y = d)"
  proof (rule mapE_all)
    fix vec assume "vec \<in> set fh"
    with fh have "length vec \<le> d * 2" by simp
    from matMulVector_generate [OF d2 d this, of 6]
    show "\<exists>y. matMulVector vec (wFF2 W) = Inr y \<and> length y = d"
      by (simp add: w2)
  qed
  then obtain fo where fo: "mapE (\<lambda>vec. matMulVector vec (wFF2 W)) fh = Inr fo"
    "length fo = n" "\<forall>y\<in>set fo. length y = d"
    using fh(2) by auto
  define fbo where "fbo = map2 addVectors fo pa"
  have fbo: "length fbo = n" "\<forall>y\<in>set fbo. length y = d"
    using fo pa map2_addVectors_rows [OF fo(3), of pa] by (simp_all add: fbo_def)
  have npos: "0 < n" using ne by (simp add: n_def)
  then have fne: "fbo \<noteq> []" using fbo(1) by auto
  \<comment> \<open>output head\<close>
  have "length (last fbo) = d" using fbo(2) fne by simp
  then have "length (last fbo) \<le> d" by simp
  from matMulVector_generate [OF d vpos this, of 7]
  obtain lg where lg: "matMulVector (last fbo) (wVocab W) = Inr lg" "length lg = length VOCAB"
    by (auto simp: wvo)
  have oh: "outputHead fbo (wVocab W) = Inr lg" using fne lg by (simp add: outputHead_def)
  from softmax_ok [OF T, of A lg] obtain pr where
    pr: "softmax A lg T = Inr pr" "length pr = length VOCAB" using lg(2) by auto
  have "runPipeline A d T toks
          = Inr \<lparr>p_tokens = toks, p_embeddings = embs, p_Q = Q, p_K = K, p_V = V,
                 attentionScores = map fst rows, attentionWeights = map snd rows,
                 ffnHidden = fh, finalBlockOutput = fbo, logits = lg, probs = pr\<rparr>"
    unfolding runPipeline_def Let_def W_def [symmetric] n_def [symmetric]
    by (simp add: bindE_Inr embs(1) X_def [symmetric] Q(1) K(1) V(1) rows(1) ao(1)
        pa_def [symmetric] fh(1) fo(1) fbo_def [symmetric] oh pr(1))
  moreover have "\<forall>i<length toks.
                 softmax A (map fst rows ! i) 1 = Inr (map snd rows ! i)
               \<and> length (map fst rows ! i) = length toks
               \<and> (\<forall>j<length toks. i < j \<longrightarrow> map fst rows ! i ! j = - 1000000000)
               \<and> \<bar>map fst rows ! i ! i\<bar> \<le> real d ^ 3 / 4"
    using row rows(2) by (simp add: n_def)
  ultimately show ?thesis using fbo(1) oh lg(2) pr(2) rows(2) by (simp add: n_def W_def)
qed

lemma runPipeline_ok:
  assumes d: "0 < d" and T: "T \<noteq> 0" and ne: "toks \<noteq> []" and len: "length toks \<le> 20"
    and voc: "\<forall>t\<in>set toks. \<exists>w\<in>set VOCAB. t = Some w"
  shows "\<exists>res. runPipeline A d T toks = Inr res \<and> p_tokens res = toks
           \<and> length (finalBlockOutput res) = length toks
           \<and> outputHead (finalBlockOutput res) (wVocab (app_weights d)) = Inr (logits res)
           \<and> length (logits res) = length VOCAB \<and> length (probs res) = length VOCAB"
  using runPipeline_stages [OF assms, of A] by blast




lemma runPipeline_logits:
  "runPipeline A d T toks = Inr res \<Longrightarrow>
   outputHead (finalBlockOutput res) (wVocab (app_weights d)) = Inr (logits res)"
  by (auto simp: runPipeline_def bindE_def Let_def split: sum.splits)

lemma outputHead_last:
  "fbo \<noteq> [] \<Longrightarrow> outputHead fbo M = matMulVector (last fbo) M"
  by (simp add: outputHead_def)

text \<open>
  Claim C9. Whatever the arithmetic of the softmax, the logits of a forward pass are the
  output head applied to the final block output; the output head is the product of the
  last row with the vocabulary projection, so two final block outputs with the same last
  row give the same logits; and for a
  context of 1 to 20 vocabulary tokens (\<open>embedDim \<ge> 1\<close>, temperature not 0) the pass
  returns, with one logit for each vocabulary entry.
\<close>

theorem logits_from_last_row:
  "(runPipeline A d T toks = Inr res \<longrightarrow>
      outputHead (finalBlockOutput res) (wVocab (app_weights d)) = Inr (logits res))
   \<and> (fbo \<noteq> [] \<longrightarrow> outputHead fbo M = matMulVector (last fbo) M)
   \<and> (fbo \<noteq> [] \<and> fbo' \<noteq> [] \<and> last fbo = last fbo' \<longrightarrow> outputHead fbo M = outputHead fbo' M)
   \<and> (0 < d \<and> T \<noteq> 0 \<and> toks \<noteq> [] \<and> length toks \<le> 20
        \<and> (\<forall>t\<in>set toks. \<exists>w\<in>set VOCAB. t = Some w) \<longrightarrow>
        (\<exists>r. runPipeline A d T toks = Inr r
            \<and> finalBlockOutput r \<noteq> []
            \<and> matMulVector (last (finalBlockOutput r)) (wVocab (app_weights d)) = Inr (logits r)
            \<and> length (logits r) = length VOCAB))"
proof (intro conjI impI)
  assume "runPipeline A d T toks = Inr res"
  then show "outputHead (finalBlockOutput res) (wVocab (app_weights d)) = Inr (logits res)"
    by (rule runPipeline_logits)
next
  assume "fbo \<noteq> []"
  then show "outputHead fbo M = matMulVector (last fbo) M" by (rule outputHead_last)
next
  assume "fbo \<noteq> [] \<and> fbo' \<noteq> [] \<and> last fbo = last fbo'"
  then show "outputHead fbo M = outputHead fbo' M" by (simp add: outputHead_last)
next
  assume a: "0 < d \<and> T \<noteq> 0 \<and> toks \<noteq> [] \<and> length toks \<le> 20
        \<and> (\<forall>t\<in>set toks. \<exists>w\<in>set VOCAB. t = Some w)"
  then have "\<exists>res. runPipeline A d T toks = Inr res \<and> p_tokens res = toks
           \<and> length (finalBlockOutput res) = length toks
           \<and> outputHead (finalBlockOutput res) (wVocab (app_weights d)) = Inr (logits res)
           \<and> length (logits res) = length VOCAB \<and> length (probs res) = length VOCAB"
    by (intro runPipeline_ok) simp_all
  then obtain r where r: "runPipeline A d T toks = Inr r"
    "length (finalBlockOutput r) = length toks"
    "outputHead (finalBlockOutput r) (wVocab (app_weights d)) = Inr (logits r)"
    "length (logits r) = length VOCAB" by blast
  from a r(2) have ne: "finalBlockOutput r \<noteq> []" by auto
  with r(3) have "matMulVector (last (finalBlockOutput r)) (wVocab (app_weights d)) = Inr (logits r)"
    by (simp add: outputHead_last)
  with r ne show "\<exists>r. runPipeline A d T toks = Inr r
            \<and> finalBlockOutput r \<noteq> []
            \<and> matMulVector (last (finalBlockOutput r)) (wVocab (app_weights d)) = Inr (logits r)
            \<and> length (logits r) = length VOCAB" by blast
qed

theorem logits_from_last_row_witness:
  "(0::nat) < 4 \<and> (1::real) \<noteq> 0
   \<and> [Some ''<START>'', Some ''I'', Some ''like''] \<noteq> []
   \<and> length [Some ''<START>'', Some ''I'', Some ''like''] \<le> 20
   \<and> ''<START>'' \<in> set VOCAB \<and> ''I'' \<in> set VOCAB \<and> ''like'' \<in> set VOCAB
   \<and> [[1, 2], [3, 4]] \<noteq> ([] :: matrix) \<and> [[5, 6], [3, 4]] \<noteq> ([] :: matrix)
   \<and> last [[1, 2], [3, 4]] = last [[5, 6], [3, 4 :: real]]
   \<and> outputHead [[1, 2], [3, 4]] [[1, 0, 1], [0, 1, 1]] = Inr [3, 4, 7]
   \<and> outputHead [[5, 6], [3, 4]] [[1, 0, 1], [0, 1, 1]] = Inr [3, 4, 7]
   \<and> (\<exists>r. runPipeline doubleArithmetic 4 1 [Some ''<START>'', Some ''I'', Some ''like''] = Inr r
          \<and> finalBlockOutput r \<noteq> []
          \<and> matMulVector (last (finalBlockOutput r)) (wVocab (app_weights 4)) = Inr (logits r)
          \<and> outputHead (finalBlockOutput r) (wVocab (app_weights 4)) = Inr (logits r)
          \<and> length (logits r) = 21)"
proof -
  let ?toks = "[Some ''<START>'', Some ''I'', Some ''like'']"
  let ?A = "[[1, 2], [3, 4]] :: matrix" and ?B = "[[5, 6], [3, 4]] :: matrix"
  let ?M = "[[1, 0, 1], [0, 1, 1]] :: matrix"
  have v: "''<START>'' \<in> set VOCAB" "''I'' \<in> set VOCAB" "''like'' \<in> set VOCAB"
    by (simp_all add: VOCAB_def)
  have h: "0 < (4::nat) \<and> (1::real) \<noteq> 0 \<and> ?toks \<noteq> [] \<and> length ?toks \<le> 20
        \<and> (\<forall>t\<in>set ?toks. \<exists>w\<in>set VOCAB. t = Some w)"
    using v by simp
  note t = logits_from_last_row [of doubleArithmetic 4 1 ?toks _ ?A ?M ?B]
  from t h obtain r where r: "runPipeline doubleArithmetic 4 1 ?toks = Inr r" "finalBlockOutput r \<noteq> []"
    "matMulVector (last (finalBlockOutput r)) (wVocab (app_weights 4)) = Inr (logits r)"
    "length (logits r) = length VOCAB" by blast
  from logits_from_last_row [of doubleArithmetic 4 1 ?toks r ?A ?M ?B] r(1)
  have o: "outputHead (finalBlockOutput r) (wVocab (app_weights 4)) = Inr (logits r)" by blast
  have ab: "?A \<noteq> [] \<and> ?B \<noteq> [] \<and> last ?A = last ?B" by simp
  with t have same: "outputHead ?A ?M = outputHead ?B ?M" by blast
  have "?A \<noteq> []" by simp
  with t have "outputHead ?A ?M = matMulVector (last ?A) ?M" by blast
  also have "\<dots> = Inr [3, 4, 7]" by (simp add: matMulVector_def upt_rec)
  finally have oa: "outputHead ?A ?M = Inr [3, 4, 7]" .
  with same have ob: "outputHead ?B ?M = Inr [3, 4, 7]" by simp
  have l: "length VOCAB = 21" by (simp add: VOCAB_def)
  from r o l have ex: "\<exists>r. runPipeline doubleArithmetic 4 1 ?toks = Inr r
          \<and> finalBlockOutput r \<noteq> []
          \<and> matMulVector (last (finalBlockOutput r)) (wVocab (app_weights 4)) = Inr (logits r)
          \<and> outputHead (finalBlockOutput r) (wVocab (app_weights 4)) = Inr (logits r)
          \<and> length (logits r) = 21" by auto
  show ?thesis using v oa ob ex by (intro conjI) simp_all
qed


subsection \<open>Attention weights\<close>




subsection \<open>Generation step\<close>















subsection \<open>Dimension checks\<close>

text \<open>
  Claim C6. \<open>matMul\<close> compares the inner dimensions and throws its dimension-mismatch
  error. The other operations compare nothing: \<open>matMulVector\<close> multiplies a vector of
  length 1 with a matrix of two rows and returns a result, and throws the engine's
  \<open>TypeError\<close> for a vector that is too long; \<open>dotProduct\<close> of a vector of width 4
  with one of width 3 is \<open>NaN\<close>; and the attention stage with \<open>Q\<close> of width 4 and \<open>K\<close>
  of width 3 passes all three products and computes \<open>NaN\<close> scores without an exception.
\<close>

theorem dimension_mismatch_unchecked:
  "matMul [[1, 2, 3]] [[1, 0], [0, 1]] = Inl DimensionMismatch
   \<and> matMulVector [1] [[1], [2]] = Inr [1]
   \<and> matMulVector [1, 2, 3] [[1], [2]] = Inl TypeError
   \<and> dotProduct [1, 1, 1, 1] [1, 1, 1] = Inl NotANumber
   \<and> computeAttention [[1]] [[1, 1, 1, 1]] [[1, 1, 1]] [[1]] = Inl NotANumber"
proof -
  have one: "toFixed 2 1 = 1" using toFixed_int [of 1 2] by simp
  show ?thesis
    by (simp add: matMul_def matMulVector_def dotProduct_def computeAttention_def bindE_def
        scoreRow_def enumerate_eq_zip upt_rec one)
qed


end
